theory Spec2Isabelle
  imports Main "HOL-Library.Char_ord" "HOL-Library.Multiset"
begin

section \<open>The graph of US states\<close>

text \<open>
  The class \<open>State\<close> of \<open>state-chain-words.py\<close>: a name, a two-letter postal
  abbreviation and the list of the names of the bordering states. The constructor
  replaces a missing neighbour list (\<open>None\<close>) by the empty list. The getters return
  the fields; \<open>__str__\<close> is called nowhere and is left out.
\<close>

record State =
  name :: string
  abbr :: string
  neighbors :: "string list"

definition State_init :: "string \<Rightarrow> string \<Rightarrow> string list option \<Rightarrow> State" where
  "State_init n a nbs =
     \<lparr>name = n, abbr = a, neighbors = (case nbs of None \<Rightarrow> [] | Some xs \<Rightarrow> xs)\<rparr>"

definition get_name :: "State \<Rightarrow> string" where
  "get_name s = name s"

definition get_abbr :: "State \<Rightarrow> string" where
  "get_abbr s = abbr s"

definition get_neighbors :: "State \<Rightarrow> string list" where
  "get_neighbors s = neighbors s"

text \<open>
  \<open>State.__eq__\<close> compares the class and the name only, and \<open>__hash__\<close> hashes the
  name: two states are the same member of a Python set when their names agree.
\<close>

definition state_eq :: "State \<Rightarrow> State \<Rightarrow> bool" where
  "state_eq a b = (name a = name b)"

text \<open>
  A dictionary whose iteration order matters is an association list in insertion order:
  \<open>d[k]\<close> is \<open>map_of d k\<close>, \<open>d.values()\<close> is \<open>map snd d\<close>. The table
  \<open>states_and_neighbors\<close> is a global of the module; the functions that read it take it
  as their argument \<open>g\<close>.
\<close>

type_synonym graph = "(string \<times> State) list"

definition states_and_neighbors :: graph where
  "states_and_neighbors = [
    (''Alabama'', State_init ''Alabama'' ''AL'' (Some [''Mississippi'', ''Tennessee'', ''Florida'', ''Georgia''])),
    (''Alaska'', State_init ''Alaska'' ''AK'' None),
    (''Arizona'', State_init ''Arizona'' ''AZ'' (Some [''Nevada'', ''New Mexico'', ''Utah'', ''California'', ''Colorado''])),
    (''Arkansas'', State_init ''Arkansas'' ''AR'' (Some [''Oklahoma'', ''Tennessee'', ''Texas'', ''Louisiana'', ''Mississippi'', ''Missouri''])),
    (''California'', State_init ''California'' ''CA'' (Some [''Oregon'', ''Arizona'', ''Nevada''])),
    (''Colorado'', State_init ''Colorado'' ''CO'' (Some [''New Mexico'', ''Oklahoma'', ''Utah'', ''Wyoming'', ''Arizona'', ''Kansas'', ''Nebraska''])),
    (''Connecticut'', State_init ''Connecticut'' ''CT'' (Some [''New York'', ''Rhode Island'', ''Massachusetts''])),
    (''Delaware'', State_init ''Delaware'' ''DE'' (Some [''New Jersey'', ''Pennsylvania'', ''Maryland''])),
    (''Florida'', State_init ''Florida'' ''FL'' (Some [''Georgia'', ''Alabama''])),
    (''Georgia'', State_init ''Georgia'' ''GA'' (Some [''North Carolina'', ''South Carolina'', ''Tennessee'', ''Alabama'', ''Florida''])),
    (''Hawaii'', State_init ''Hawaii'' ''HI'' None),
    (''Idaho'', State_init ''Idaho'' ''ID'' (Some [''Utah'', ''Washington'', ''Wyoming'', ''Montana'', ''Nevada'', ''Oregon''])),
    (''Illinois'', State_init ''Illinois'' ''IL'' (Some [''Kentucky'', ''Missouri'', ''Wisconsin'', ''Indiana'', ''Iowa'', ''Michigan''])),
    (''Indiana'', State_init ''Indiana'' ''IN'' (Some [''Michigan'', ''Ohio'', ''Illinois'', ''Kentucky''])),
    (''Iowa'', State_init ''Iowa'' ''IA'' (Some [''Nebraska'', ''South Dakota'', ''Wisconsin'', ''Illinois'', ''Minnesota'', ''Missouri''])),
    (''Kansas'', State_init ''Kansas'' ''KS'' (Some [''Nebraska'', ''Oklahoma'', ''Colorado'', ''Missouri''])),
    (''Kentucky'', State_init ''Kentucky'' ''KY'' (Some [''Tennessee'', ''Virginia'', ''West Virginia'', ''Illinois'', ''Indiana'', ''Missouri'', ''Ohio''])),
    (''Louisiana'', State_init ''Louisiana'' ''LA'' (Some [''Texas'', ''Arkansas'', ''Mississippi''])),
    (''Maine'', State_init ''Maine'' ''ME'' (Some [''New Hampshire''])),
    (''Maryland'', State_init ''Maryland'' ''MD'' (Some [''Virginia'', ''West Virginia'', ''Delaware'', ''Pennsylvania''])),
    (''Massachusetts'', State_init ''Massachusetts'' ''MA'' (Some [''New York'', ''Rhode Island'', ''Vermont'', ''Connecticut'', ''New Hampshire''])),
    (''Michigan'', State_init ''Michigan'' ''MI'' (Some [''Ohio'', ''Wisconsin'', ''Illinois'', ''Indiana''])),
    (''Minnesota'', State_init ''Minnesota'' ''MN'' (Some [''North Dakota'', ''South Dakota'', ''Wisconsin'', ''Iowa''])),
    (''Mississippi'', State_init ''Mississippi'' ''MS'' (Some [''Louisiana'', ''Tennessee'', ''Alabama'', ''Arkansas''])),
    (''Missouri'', State_init ''Missouri'' ''MO'' (Some [''Nebraska'', ''Oklahoma'', ''Tennessee'', ''Arkansas'', ''Illinois'', ''Iowa'', ''Kansas'', ''Kentucky''])),
    (''Montana'', State_init ''Montana'' ''MT'' (Some [''South Dakota'', ''Wyoming'', ''Idaho'', ''North Dakota''])),
    (''Nebraska'', State_init ''Nebraska'' ''NE'' (Some [''Missouri'', ''South Dakota'', ''Wyoming'', ''Colorado'', ''Iowa'', ''Kansas''])),
    (''Nevada'', State_init ''Nevada'' ''NV'' (Some [''Idaho'', ''Oregon'', ''Utah'', ''Arizona'', ''California''])),
    (''New Hampshire'', State_init ''New Hampshire'' ''NH'' (Some [''Vermont'', ''Maine'', ''Massachusetts''])),
    (''New Jersey'', State_init ''New Jersey'' ''NJ'' (Some [''Pennsylvania'', ''Delaware'', ''New York''])),
    (''New Mexico'', State_init ''New Mexico'' ''NM'' (Some [''Oklahoma'', ''Texas'', ''Utah'', ''Arizona'', ''Colorado''])),
    (''New York'', State_init ''New York'' ''NY'' (Some [''Pennsylvania'', ''Vermont'', ''Connecticut'', ''Massachusetts'', ''New Jersey''])),
    (''North Carolina'', State_init ''North Carolina'' ''NC'' (Some [''Tennessee'', ''Virginia'', ''Georgia'', ''South Carolina''])),
    (''North Dakota'', State_init ''North Dakota'' ''ND'' (Some [''South Dakota'', ''Minnesota'', ''Montana''])),
    (''Ohio'', State_init ''Ohio'' ''OH'' (Some [''Michigan'', ''Pennsylvania'', ''West Virginia'', ''Indiana'', ''Kentucky''])),
    (''Oklahoma'', State_init ''Oklahoma'' ''OK'' (Some [''Missouri'', ''New Mexico'', ''Texas'', ''Arkansas'', ''Colorado'', ''Kansas''])),
    (''Oregon'', State_init ''Oregon'' ''OR'' (Some [''Nevada'', ''Washington'', ''California'', ''Idaho''])),
    (''Pennsylvania'', State_init ''Pennsylvania'' ''PA'' (Some [''New York'', ''Ohio'', ''West Virginia'', ''Delaware'', ''Maryland'', ''New Jersey''])),
    (''Rhode Island'', State_init ''Rhode Island'' ''RI'' (Some [''Massachusetts'', ''Connecticut''])),
    (''South Carolina'', State_init ''South Carolina'' ''SC'' (Some [''North Carolina'', ''Georgia''])),
    (''South Dakota'', State_init ''South Dakota'' ''SD'' (Some [''Nebraska'', ''North Dakota'', ''Wyoming'', ''Iowa'', ''Minnesota'', ''Montana''])),
    (''Tennessee'', State_init ''Tennessee'' ''TN'' (Some [''Mississippi'', ''Missouri'', ''North Carolina'', ''Virginia'', ''Alabama'', ''Arkansas'', ''Georgia'', ''Kentucky''])),
    (''Texas'', State_init ''Texas'' ''TX'' (Some [''New Mexico'', ''Oklahoma'', ''Arkansas'', ''Louisiana''])),
    (''Utah'', State_init ''Utah'' ''UT'' (Some [''Nevada'', ''New Mexico'', ''Wyoming'', ''Arizona'', ''Colorado'', ''Idaho''])),
    (''Vermont'', State_init ''Vermont'' ''VT'' (Some [''New Hampshire'', ''New York'', ''Massachusetts''])),
    (''Virginia'', State_init ''Virginia'' ''VA'' (Some [''North Carolina'', ''Tennessee'', ''West Virginia'', ''Kentucky'', ''Maryland''])),
    (''Washington'', State_init ''Washington'' ''WA'' (Some [''Oregon'', ''Idaho''])),
    (''West Virginia'', State_init ''West Virginia'' ''WV'' (Some [''Pennsylvania'', ''Virginia'', ''Kentucky'', ''Maryland'', ''Ohio''])),
    (''Wisconsin'', State_init ''Wisconsin'' ''WI'' (Some [''Michigan'', ''Minnesota'', ''Illinois'', ''Iowa''])),
    (''Wyoming'', State_init ''Wyoming'' ''WY'' (Some [''Nebraska'', ''South Dakota'', ''Utah'', ''Colorado'', ''Idaho'', ''Montana'']))
  ]"

section \<open>Python objects: sets and lists in a store\<close>

text \<open>
  A Python set is modelled by the list of its members in the order they were added,
  without duplicates; membership and insertion go through the element type's \<open>__eq__\<close>,
  given as \<open>eq\<close>. The iteration order of a real set is unspecified, and nothing below
  reads it.
\<close>

definition pyset_contains :: "('a \<Rightarrow> 'a \<Rightarrow> bool) \<Rightarrow> 'a list \<Rightarrow> 'a \<Rightarrow> bool" where
  "pyset_contains eq S x = (\<exists>y\<in>set S. eq y x)"

definition pyset_add :: "('a \<Rightarrow> 'a \<Rightarrow> bool) \<Rightarrow> 'a list \<Rightarrow> 'a \<Rightarrow> 'a list" where
  "pyset_add eq S x = (if pyset_contains eq S x then S else S @ [x])"

text \<open>
  \<open>traverse_neighbor_chain\<close> receives references to a set and to two lists and mutates
  the objects behind them, so the objects live in a store. A reference is a natural
  number; the store holds the set objects (sets of \<open>State\<close>), the list objects that
  hold states (the chains), the list objects that hold references to chains (the
  list \<open>chains\<close>), and the next reference that has not been handed out.
\<close>

datatype py_error = KeyError string | ValueError | FileNotFoundError string | OverflowError

type_synonym ref = nat

record heap =
  set_objs :: "ref \<Rightarrow> State list"
  list_objs :: "ref \<Rightarrow> State list"
  reflist_objs :: "ref \<Rightarrow> ref list"
  next_ref :: ref

definition empty_heap :: heap where
  "empty_heap =
     \<lparr>set_objs = (\<lambda>r. []), list_objs = (\<lambda>r. []), reflist_objs = (\<lambda>r. []), next_ref = 0\<rparr>"

text \<open>\<open>set()\<close>, \<open>[]\<close>: a new object at the next free reference.\<close>

definition new_set :: "heap \<Rightarrow> ref \<times> heap" where
  "new_set h =
     (next_ref h, h\<lparr>set_objs := (set_objs h)(next_ref h := []), next_ref := Suc (next_ref h)\<rparr>)"

definition new_list :: "heap \<Rightarrow> ref \<times> heap" where
  "new_list h =
     (next_ref h, h\<lparr>list_objs := (list_objs h)(next_ref h := []), next_ref := Suc (next_ref h)\<rparr>)"

definition new_reflist :: "heap \<Rightarrow> ref \<times> heap" where
  "new_reflist h =
     (next_ref h,
      h\<lparr>reflist_objs := (reflist_objs h)(next_ref h := []), next_ref := Suc (next_ref h)\<rparr>)"

text \<open>\<open>s.copy()\<close>: a new object with the contents the old one has now.\<close>

definition set_copy :: "ref \<Rightarrow> heap \<Rightarrow> ref \<times> heap" where
  "set_copy r h =
     (next_ref h,
      h\<lparr>set_objs := (set_objs h)(next_ref h := set_objs h r), next_ref := Suc (next_ref h)\<rparr>)"

definition list_copy :: "ref \<Rightarrow> heap \<Rightarrow> ref \<times> heap" where
  "list_copy r h =
     (next_ref h,
      h\<lparr>list_objs := (list_objs h)(next_ref h := list_objs h r), next_ref := Suc (next_ref h)\<rparr>)"

text \<open>\<open>s.add(x)\<close>, \<open>l.append(x)\<close>: the object behind the reference changes in place.\<close>

definition set_add :: "ref \<Rightarrow> State \<Rightarrow> heap \<Rightarrow> heap" where
  "set_add r s h = h\<lparr>set_objs := (set_objs h)(r := pyset_add state_eq (set_objs h r) s)\<rparr>"

definition list_append :: "ref \<Rightarrow> State \<Rightarrow> heap \<Rightarrow> heap" where
  "list_append r s h = h\<lparr>list_objs := (list_objs h)(r := list_objs h r @ [s])\<rparr>"

definition reflist_append :: "ref \<Rightarrow> ref \<Rightarrow> heap \<Rightarrow> heap" where
  "reflist_append r c h = h\<lparr>reflist_objs := (reflist_objs h)(r := reflist_objs h r @ [c])\<rparr>"

text \<open>The value of a list of chains: the states of each chain it refers to.\<close>

definition read_chains :: "heap \<Rightarrow> ref \<Rightarrow> State list list" where
  "read_chains h r = map (list_objs h) (reflist_objs h r)"

section \<open>The path enumerator\<close>

text \<open>
  \<open>traverse_neighbor_chain(state, states_seen, chains, chain, max_depth)\<close>, with the
  table it reads as its first argument and the store as its last (\<open>chains_out\<close> is the
  parameter \<open>chains\<close>). The \<open>for\<close> loop over the neighbour names is \<open>for_neighbors\<close>; a
  name that is no key of the table raises \<open>KeyError\<close>, which ends the whole traversal.
  \<open>max_depth\<close> is a Python integer: nothing keeps it from being negative.
\<close>

function traverse_neighbor_chain ::
    "graph \<Rightarrow> State \<Rightarrow> ref \<Rightarrow> ref \<Rightarrow> ref \<Rightarrow> int \<Rightarrow> heap \<Rightarrow> py_error + heap"
  and for_neighbors ::
    "graph \<Rightarrow> string list \<Rightarrow> ref \<Rightarrow> ref \<Rightarrow> ref \<Rightarrow> int \<Rightarrow> heap \<Rightarrow> py_error + heap"
where
  "traverse_neighbor_chain g state states_seen chains_out chain max_depth h =
     (let h1 = list_append chain state h in
      if max_depth = 0 then Inr (reflist_append chains_out chain h1)
      else let h2 = set_add states_seen state h1 in
        for_neighbors g (get_neighbors state) states_seen chains_out chain max_depth h2)"
| "for_neighbors g [] states_seen chains_out chain max_depth h = Inr h"
| "for_neighbors g (neighbor_name # rest) states_seen chains_out chain max_depth h =
     (case map_of g neighbor_name of
        None \<Rightarrow> Inl (KeyError neighbor_name)
      | Some neighbor \<Rightarrow>
          if pyset_contains state_eq (set_objs h states_seen) neighbor
          then for_neighbors g rest states_seen chains_out chain max_depth h
          else (case set_copy states_seen h of (local_states_seen, h1) \<Rightarrow>
                (case list_copy chain h1 of (local_chain, h2) \<Rightarrow>
                 (case traverse_neighbor_chain g neighbor local_states_seen chains_out
                         local_chain (max_depth - 1) h2 of
                    Inl e \<Rightarrow> Inl e
                  | Inr h3 \<Rightarrow> for_neighbors g rest states_seen chains_out chain max_depth h3))))"
  by pat_completeness auto

text \<open>
  The recursion is nested: the loop goes on in the store the recursive call returns.
  Its termination rests on what a call leaves alone, proved first on the domain of the
  function: a call changes no set object that existed before it, its own \<open>states_seen\<close>
  apart, and hands out references upwards only.
\<close>

lemma heap_op_simps:
  "next_ref (list_append r s h) = next_ref h"
  "set_objs (list_append r s h) = set_objs h"
  "reflist_objs (list_append r s h) = reflist_objs h"
  "list_objs (list_append r s h) = (list_objs h)(r := list_objs h r @ [s])"
  "next_ref (reflist_append r c h) = next_ref h"
  "set_objs (reflist_append r c h) = set_objs h"
  "list_objs (reflist_append r c h) = list_objs h"
  "reflist_objs (reflist_append r c h) = (reflist_objs h)(r := reflist_objs h r @ [c])"
  "next_ref (set_add r s h) = next_ref h"
  "list_objs (set_add r s h) = list_objs h"
  "reflist_objs (set_add r s h) = reflist_objs h"
  "set_objs (set_add r s h) = (set_objs h)(r := pyset_add state_eq (set_objs h r) s)"
  by (simp_all add: list_append_def reflist_append_def set_add_def)

lemma set_frame_partial:
  "traverse_neighbor_chain_for_neighbors_dom (Inl (g, state, seen, co, chain, d, h)) \<Longrightarrow>
     traverse_neighbor_chain g state seen co chain d h = Inr h' \<Longrightarrow>
     next_ref h \<le> next_ref h' \<and>
     (\<forall>b. b < next_ref h \<and> b \<noteq> seen \<longrightarrow> set_objs h' b = set_objs h b)"
  "traverse_neighbor_chain_for_neighbors_dom (Inr (g, ns, seen, co, chain, d, h)) \<Longrightarrow>
     for_neighbors g ns seen co chain d h = Inr h' \<Longrightarrow>
     next_ref h \<le> next_ref h' \<and> (\<forall>b. b < next_ref h \<longrightarrow> set_objs h' b = set_objs h b)"
proof (induction g state seen co chain d h and g ns seen co chain d h arbitrary: h' and h'
    rule: traverse_neighbor_chain_for_neighbors.pinduct)
  case (1 g state states_seen chains_out chain max_depth h)
  show ?case
  proof (cases "max_depth = 0")
    case True
    with 1(1,3) show ?thesis
      by (auto simp: traverse_neighbor_chain.psimps heap_op_simps Let_def)
  next
    case False
    with 1(1,3) have run:
      "for_neighbors g (get_neighbors state) states_seen chains_out chain max_depth
         (set_add states_seen state (list_append chain state h)) = Inr h'"
      by (simp add: traverse_neighbor_chain.psimps Let_def)
    from 1(2)[OF refl False refl run] show ?thesis
      by (auto simp: heap_op_simps)
  qed
next
  case (2 g states_seen chains_out chain max_depth h)
  then show ?case by (simp add: for_neighbors.psimps)
next
  case (3 g neighbor_name rest states_seen chains_out chain max_depth h)
  from 3(1,5) obtain neighbor where look: "map_of g neighbor_name = Some neighbor"
    by (auto simp: for_neighbors.psimps split: option.splits)
  show ?case
  proof (cases "pyset_contains state_eq (set_objs h states_seen) neighbor")
    case True
    with 3(1,5) look
    have "for_neighbors g rest states_seen chains_out chain max_depth h = Inr h'"
      by (simp add: for_neighbors.psimps)
    from 3(2)[OF look True this] show ?thesis .
  next
    case False
    define h1 where "h1 = snd (set_copy states_seen h)"
    define h2 where "h2 = snd (list_copy chain h1)"
    have c1: "(next_ref h, h1) = set_copy states_seen h"
      by (simp add: h1_def set_copy_def)
    have c2: "(next_ref h1, h2) = list_copy chain h1"
      by (simp add: h2_def list_copy_def)
    from 3(1,5) look False c1[symmetric] c2[symmetric] obtain h3 where
      call: "traverse_neighbor_chain g neighbor (next_ref h) chains_out (next_ref h1)
               (max_depth - 1) h2 = Inr h3"
      and rest: "for_neighbors g rest states_seen chains_out chain max_depth h3 = Inr h'"
      by (auto simp: for_neighbors.psimps split: sum.splits)
    note ih1 = 3(3)[OF look False c1 c2 call]
    note ih2 = 3(4)[OF look False c1 c2 call rest]
    have n1: "next_ref h1 = Suc (next_ref h)" and n2: "next_ref h2 = Suc (Suc (next_ref h))"
      and s2: "set_objs h2 = (set_objs h)(next_ref h := set_objs h states_seen)"
      by (simp_all add: h1_def h2_def set_copy_def list_copy_def)
    from ih1 ih2 show ?thesis
      by (auto simp: n1 n2 s2)
  qed
qed

text \<open>
  The measure: the number of names of the table that \<open>states_seen\<close> does not hold yet.
  It falls with every recursive call, whatever the sign of \<open>max_depth\<close>. (A
  \<open>states_seen\<close> that is no reference of the store yet, which no run passes, counts by
  its distance to the next free reference.)
\<close>

definition graph_names :: "graph \<Rightarrow> string set" where
  "graph_names g = name ` snd ` set g"

definition unseen_count :: "graph \<Rightarrow> heap \<Rightarrow> ref \<Rightarrow> string set \<Rightarrow> nat" where
  "unseen_count g h r X =
     (if r < next_ref h then card (graph_names g - name ` set (set_objs h r) - X)
      else Suc (card (graph_names g)) + (r - next_ref h))"

definition traverse_measure ::
    "graph \<times> State \<times> ref \<times> ref \<times> ref \<times> int \<times> heap +
     graph \<times> string list \<times> ref \<times> ref \<times> ref \<times> int \<times> heap \<Rightarrow> nat \<times> nat \<times> nat" where
  "traverse_measure x =
     (case x of
        Inl (g, state, seen, co, chain, d, h) \<Rightarrow> (unseen_count g h seen {name state}, 1, 0)
      | Inr (g, ns, seen, co, chain, d, h) \<Rightarrow> (unseen_count g h seen {}, 0, length ns))"

lemma finite_graph_names: "finite (graph_names g)"
  by (simp add: graph_names_def)

lemma pyset_contains_state: "pyset_contains state_eq S s \<longleftrightarrow> name s \<in> name ` set S"
  unfolding pyset_contains_def state_eq_def image_iff by metis

lemma name_pyset_add: "name ` set (pyset_add state_eq S s) = insert (name s) (name ` set S)"
  by (auto simp: pyset_add_def pyset_contains_state)

lemma map_of_graph_names: "map_of g k = Some s \<Longrightarrow> name s \<in> graph_names g"
  by (force simp: graph_names_def dest: map_of_SomeD)

lemma unseen_count_le: "r < next_ref h \<Longrightarrow> unseen_count g h r X \<le> card (graph_names g)"
  by (auto simp: unseen_count_def intro!: card_mono finite_graph_names)

termination traverse_neighbor_chain
proof (relation "inv_image (less_than <*lex*> less_than <*lex*> less_than) traverse_measure")
  show "wf (inv_image (less_than <*lex*> less_than <*lex*> less_than) traverse_measure)"
    by (intro wf_inv_image wf_lex_prod wf_less_than)
next
  fix g :: graph and state states_seen chains_out chain and max_depth :: int and h x xa
  assume "x = list_append chain state h" "max_depth \<noteq> 0" "xa = set_add states_seen state x"
  then show "(Inr (g, get_neighbors state, states_seen, chains_out, chain, max_depth, xa),
              Inl (g, state, states_seen, chains_out, chain, max_depth, h))
             \<in> inv_image (less_than <*lex*> less_than <*lex*> less_than) traverse_measure"
    by (auto simp: traverse_measure_def unseen_count_def heap_op_simps name_pyset_add
        intro!: arg_cong[where f=card])
next
  fix g :: graph and neighbor_name rest states_seen chains_out chain and max_depth :: int and h
  show "(Inr (g, rest, states_seen, chains_out, chain, max_depth, h),
         Inr (g, neighbor_name # rest, states_seen, chains_out, chain, max_depth, h))
        \<in> inv_image (less_than <*lex*> less_than <*lex*> less_than) traverse_measure"
    by (simp add: traverse_measure_def)
next
  fix g :: graph and neighbor_name rest states_seen chains_out chain and max_depth :: int
    and h x2 x y xa ya
  assume look: "map_of g neighbor_name = Some x2"
    and unseen: "\<not> pyset_contains state_eq (set_objs h states_seen) x2"
    and c1: "(x, y) = set_copy states_seen h" and c2: "(xa, ya) = list_copy chain y"
  from c1 c2 have x: "x = next_ref h" and n: "next_ref ya = Suc (Suc (next_ref h))"
    and s: "set_objs ya = (set_objs h)(next_ref h := set_objs h states_seen)"
    by (simp_all add: set_copy_def list_copy_def)
  let ?U = "graph_names g - name ` set (set_objs h states_seen)"
  have in_U: "name x2 \<in> ?U"
    using look unseen by (simp add: map_of_graph_names pyset_contains_state)
  have fin: "finite ?U" by (simp add: finite_graph_names)
  have less: "card (?U - {name x2}) < card ?U"
    using fin in_U by (rule card_Diff1_less)
  have le: "card ?U \<le> card (graph_names g)"
    by (simp add: card_mono finite_graph_names)
  have callee: "unseen_count g ya x {name x2} = card (?U - {name x2})"
    by (simp add: unseen_count_def x n s)
  have "unseen_count g ya x {name x2} < unseen_count g h states_seen {}"
  proof (cases "states_seen < next_ref h")
    case True
    with less callee show ?thesis by (simp add: unseen_count_def)
  next
    case False
    then have "unseen_count g h states_seen {} > card (graph_names g)"
      by (simp add: unseen_count_def)
    with less le callee show ?thesis by linarith
  qed
  then show "(Inl (g, x2, x, chains_out, xa, max_depth - 1, ya),
         Inr (g, neighbor_name # rest, states_seen, chains_out, chain, max_depth, h))
        \<in> inv_image (less_than <*lex*> less_than <*lex*> less_than) traverse_measure"
    by (simp add: traverse_measure_def)
next
  fix g :: graph and neighbor_name rest states_seen chains_out chain and max_depth :: int
    and h x2 x y xa ya b
  assume c1: "(x, y) = set_copy states_seen h" and c2: "(xa, ya) = list_copy chain y"
    and dom: "traverse_neighbor_chain_for_neighbors_dom
                (Inl (g, x2, x, chains_out, xa, max_depth - 1, ya))"
    and call: "traverse_neighbor_chain g x2 x chains_out xa (max_depth - 1) ya = Inr b"
  from c1 c2 have x: "x = next_ref h" and n: "next_ref ya = Suc (Suc (next_ref h))"
    and s: "set_objs ya = (set_objs h)(next_ref h := set_objs h states_seen)"
    by (simp_all add: set_copy_def list_copy_def)
  from set_frame_partial(1)[OF dom call]
  have grow: "Suc (Suc (next_ref h)) \<le> next_ref b"
    and frame: "\<And>r. r < next_ref h \<Longrightarrow> set_objs b r = set_objs h r"
    by (auto simp: x n s)
  have "unseen_count g b states_seen {} \<le> unseen_count g h states_seen {}"
  proof (cases "states_seen < next_ref h")
    case True
    with grow frame[OF True] show ?thesis by (simp add: unseen_count_def)
  next
    case False
    show ?thesis
    proof (cases "states_seen < next_ref b")
      case True
      from unseen_count_le[OF True, of g "{}"] False show ?thesis
        by (simp add: unseen_count_def)
    next
      case False
      with grow show ?thesis by (simp add: unseen_count_def)
    qed
  qed
  then show "(Inr (g, rest, states_seen, chains_out, chain, max_depth, b),
         Inr (g, neighbor_name # rest, states_seen, chains_out, chain, max_depth, h))
        \<in> inv_image (less_than <*lex*> less_than <*lex*> less_than) traverse_measure"
    by (auto simp: traverse_measure_def)
qed

text \<open>
  \<open>build_neighbor_chains(chain_length)\<close>: the loop over \<open>states_and_neighbors.values()\<close>
  is \<open>for_states\<close>. The function returns the reference of the list \<open>chains\<close>;
  \<open>neighbor_chains\<close> is the value a caller reads through it.
\<close>

fun for_states :: "graph \<Rightarrow> State list \<Rightarrow> ref \<Rightarrow> int \<Rightarrow> heap \<Rightarrow> py_error + heap" where
  "for_states g [] chains_out chain_length h = Inr h"
| "for_states g (state # rest) chains_out chain_length h =
     (case new_list h of (new_chain, h1) \<Rightarrow>
      (case new_set h1 of (states_seen, h2) \<Rightarrow>
       (case traverse_neighbor_chain g state states_seen chains_out new_chain
               (chain_length - 1) h2 of
          Inl e \<Rightarrow> Inl e
        | Inr h3 \<Rightarrow> for_states g rest chains_out chain_length h3)))"

definition build_neighbor_chains :: "graph \<Rightarrow> int \<Rightarrow> heap \<Rightarrow> py_error + ref \<times> heap" where
  "build_neighbor_chains g chain_length h =
     (case new_reflist h of (chains_out, h0) \<Rightarrow>
      (case for_states g (map snd g) chains_out chain_length h0 of
         Inl e \<Rightarrow> Inl e
       | Inr h' \<Rightarrow> Inr (chains_out, h')))"

definition neighbor_chains :: "graph \<Rightarrow> int \<Rightarrow> heap \<Rightarrow> py_error + State list list" where
  "neighbor_chains g chain_length h =
     (case build_neighbor_chains g chain_length h of
        Inl e \<Rightarrow> Inl e
      | Inr (chains_out, h') \<Rightarrow> Inr (read_chains h' chains_out))"

declare traverse_neighbor_chain.simps [simp del]

section \<open>The reference enumeration\<close>

text \<open>
  The enumeration as the specification words it: a depth-limited depth-first traversal
  from every node that keeps the current path, branches over the neighbours of the
  path's last node, skips a neighbour that is already on the path, and emits the path
  when the depth reaches 0. Nothing is shared between branches: a call's visited
  states are the states of the path it is given. \<open>enumerate_from g path state depth\<close>
  extends \<open>path\<close> by \<open>state\<close>. A neighbour name that is no key of the table is an error
  here too.
\<close>

function enumerate_from :: "graph \<Rightarrow> State list \<Rightarrow> State \<Rightarrow> int \<Rightarrow> py_error + State list list"
  and enumerate_branches ::
    "graph \<Rightarrow> string list \<Rightarrow> State list \<Rightarrow> int \<Rightarrow> py_error + State list list"
where
  "enumerate_from g path state depth =
     (if depth = 0 then Inr [path @ [state]]
      else enumerate_branches g (neighbors state) (path @ [state]) depth)"
| "enumerate_branches g [] path depth = Inr []"
| "enumerate_branches g (nm # rest) path depth =
     (case map_of g nm of
        None \<Rightarrow> Inl (KeyError nm)
      | Some nb \<Rightarrow>
          if name nb \<in> name ` set path then enumerate_branches g rest path depth
          else (case enumerate_from g path nb (depth - 1) of
                  Inl e \<Rightarrow> Inl e
                | Inr found \<Rightarrow>
                    (case enumerate_branches g rest path depth of
                       Inl e \<Rightarrow> Inl e
                     | Inr others \<Rightarrow> Inr (found @ others))))"
  by pat_completeness auto

definition enumerate_measure ::
    "graph \<times> State list \<times> State \<times> int + graph \<times> string list \<times> State list \<times> int
     \<Rightarrow> nat \<times> nat \<times> nat" where
  "enumerate_measure x =
     (case x of
        Inl (g, path, state, depth) \<Rightarrow>
          (card (graph_names g - name ` set path - {name state}), 1, 0)
      | Inr (g, ns, path, depth) \<Rightarrow> (card (graph_names g - name ` set path), 0, length ns))"

termination enumerate_from
proof (relation "inv_image (less_than <*lex*> less_than <*lex*> less_than) enumerate_measure")
  show "wf (inv_image (less_than <*lex*> less_than <*lex*> less_than) enumerate_measure)"
    by (intro wf_inv_image wf_lex_prod wf_less_than)
next
  fix g :: graph and path :: "State list" and state :: State and depth :: int
  have "graph_names g - name ` set path - {name state}
      = graph_names g - name ` set (path @ [state])"
    by auto
  then show "(Inr (g, neighbors state, path @ [state], depth), Inl (g, path, state, depth))
    \<in> inv_image (less_than <*lex*> less_than <*lex*> less_than) enumerate_measure"
    by (simp add: enumerate_measure_def)
next
  fix g :: graph and nm rest and path :: "State list" and depth :: int and x2
  assume look: "map_of g nm = Some x2" and unseen: "name x2 \<notin> name ` set path"
  have "card (graph_names g - name ` set path - {name x2})
      < card (graph_names g - name ` set path)"
    by (rule card_Diff1_less)
       (use look unseen in \<open>simp_all add: finite_graph_names map_of_graph_names\<close>)
  then show "(Inl (g, path, x2, depth - 1), Inr (g, nm # rest, path, depth))
    \<in> inv_image (less_than <*lex*> less_than <*lex*> less_than) enumerate_measure"
    by (simp add: enumerate_measure_def)
qed (simp_all add: enumerate_measure_def)

declare enumerate_from.simps [simp del]

fun enumerate_all :: "graph \<Rightarrow> State list \<Rightarrow> int \<Rightarrow> py_error + State list list" where
  "enumerate_all g [] depth = Inr []"
| "enumerate_all g (state # rest) depth =
     (case enumerate_from g [] state depth of
        Inl e \<Rightarrow> Inl e
      | Inr found \<Rightarrow>
          (case enumerate_all g rest depth of
             Inl e \<Rightarrow> Inl e
           | Inr others \<Rightarrow> Inr (found @ others)))"

definition enumerate_paths :: "graph \<Rightarrow> int \<Rightarrow> py_error + State list list" where
  "enumerate_paths g n = enumerate_all g (map snd g) (n - 1)"

section \<open>The anagram matcher and the main routine\<close>

text \<open>
  Strings are lists of 8-bit characters, ordered by their code (\<open>Char_ord\<close>), which is the
  order \<open>list.sort()\<close> puts the characters of a Python string in. \<open>str.strip\<close>,
  \<open>str.upper\<close> and \<open>int\<close> are modelled on ASCII text: the whitespace characters are the
  ASCII ones Python knows, \<open>upper\<close> changes the letters a to z only, and \<open>int\<close> reads an
  optional sign and decimal digits, with single underscores between digits.
\<close>

definition py_isspace :: "char \<Rightarrow> bool" where
  "py_isspace c = ((of_char c :: nat) \<in> {9, 10, 11, 12, 13, 28, 29, 30, 31, 32})"

definition strip :: "string \<Rightarrow> string" where
  "strip s = rev (dropWhile py_isspace (rev (dropWhile py_isspace s)))"

definition upper_char :: "char \<Rightarrow> char" where
  "upper_char c =
     (if CHR ''a'' \<le> c \<and> c \<le> CHR ''z'' then char_of ((of_char c :: nat) - 32) else c)"

definition upper :: "string \<Rightarrow> string" where
  "upper s = map upper_char s"

fun join :: "string \<Rightarrow> string list \<Rightarrow> string" where
  "join sep [] = []"
| "join sep [x] = x"
| "join sep (x # y # rest) = x @ sep @ join sep (y # rest)"

definition digit_value :: "char \<Rightarrow> nat option" where
  "digit_value c =
     (if CHR ''0'' \<le> c \<and> c \<le> CHR ''9'' then Some ((of_char c :: nat) - 48) else None)"

text \<open>The digits of a decimal literal; \<open>after_digit\<close>: the character before was a digit.\<close>

fun parse_digits :: "nat \<Rightarrow> bool \<Rightarrow> string \<Rightarrow> nat option" where
  "parse_digits acc after_digit [] = (if after_digit then Some acc else None)"
| "parse_digits acc after_digit (c # cs) =
     (if c = CHR ''_'' then
        (if after_digit \<and> cs \<noteq> [] then parse_digits acc False cs else None)
      else (case digit_value c of
              None \<Rightarrow> None
            | Some d \<Rightarrow> parse_digits (10 * acc + d) True cs))"

definition py_int :: "string \<Rightarrow> py_error + int" where
  "py_int s =
     (case strip s of
        [] \<Rightarrow> Inl ValueError
      | c # cs \<Rightarrow>
          if c = CHR ''-'' then
            (case parse_digits 0 False cs of
               None \<Rightarrow> Inl ValueError
             | Some n \<Rightarrow> Inr (- int n))
          else
            (case parse_digits 0 False (if c = CHR ''+'' then cs else c # cs) of
               None \<Rightarrow> Inl ValueError
             | Some n \<Rightarrow> Inr (int n)))"

text \<open>
  \<open>generate_key\<close>: the characters sorted, then joined and upper-cased.
\<close>

definition generate_key :: "string \<Rightarrow> string" where
  "generate_key s = upper (sort s)"

text \<open>
  The pattern \<open>^[A-Z]{word_length}$\<close> under \<open>pattern.match\<close>: exactly \<open>k\<close> characters of
  the class, then the end of the string or a last newline. The loop asks for a match
  only after the length test, so only for a \<open>word_length\<close> that is the length of a word
  (for a negative \<open>word_length\<close> the braces of the pattern are literal characters, and
  the length test lets no word through to it).
\<close>

definition is_upper_letter :: "char \<Rightarrow> bool" where
  "is_upper_letter c = (CHR ''A'' \<le> c \<and> c \<le> CHR ''Z'')"

fun match_class_repeat :: "nat \<Rightarrow> string \<Rightarrow> string option" where
  "match_class_repeat 0 s = Some s"
| "match_class_repeat (Suc k) [] = None"
| "match_class_repeat (Suc k) (c # s) =
     (if is_upper_letter c then match_class_repeat k s else None)"

definition pattern_match :: "nat \<Rightarrow> string \<Rightarrow> bool" where
  "pattern_match k word =
     (case match_class_repeat k word of
        None \<Rightarrow> False
      | Some rest \<Rightarrow> rest = [] \<or> rest = [CHR 0x0A])"

text \<open>The dictionary \<open>anagrams\<close>: from a key to the words that have it, in file order.\<close>

type_synonym index = "string \<rightharpoonup> string list"

definition index_word :: "index \<Rightarrow> string \<Rightarrow> index" where
  "index_word anagrams word =
     (let key = generate_key word in
      case anagrams key of
        Some ws \<Rightarrow> anagrams(key \<mapsto> ws @ [word])
      | None \<Rightarrow> anagrams(key \<mapsto> [word]))"

text \<open>The loop over the lines of the word file.\<close>

fun read_words :: "int \<Rightarrow> string list \<Rightarrow> index \<Rightarrow> index" where
  "read_words word_length [] anagrams = anagrams"
| "read_words word_length (line # rest) anagrams =
     (let word = upper (strip line) in
      if int (length word) \<noteq> word_length then read_words word_length rest anagrams
      else if pattern_match (nat word_length) word
      then read_words word_length rest (index_word anagrams word)
      else read_words word_length rest anagrams)"

text \<open>
  The loop over the chains: the lines printed for the chains that have words, and the
  set \<open>total_found_words\<close>. (The set \<open>found_words\<close> of the loop body is filled and
  never read; it is left out.)
\<close>

definition chain_line :: "string list \<Rightarrow> string list \<Rightarrow> string" where
  "chain_line chain_abbrs ws = join '', '' chain_abbrs @ '' : '' @ join '', '' ws"

fun for_chains ::
    "index \<Rightarrow> State list list \<Rightarrow> string list \<times> string list \<Rightarrow> string list \<times> string list" where
  "for_chains anagrams [] (printed, total_found_words) = (printed, total_found_words)"
| "for_chains anagrams (chain # rest) (printed, total_found_words) =
     (let chain_abbrs = map get_abbr chain;
          chain_string = concat chain_abbrs;
          key = generate_key chain_string
      in case anagrams key of
           None \<Rightarrow> for_chains anagrams rest (printed, total_found_words)
         | Some ws \<Rightarrow>
             for_chains anagrams rest
               (printed @ [chain_line chain_abbrs ws],
                foldl (pyset_add (=)) total_found_words ws))"

text \<open>
  The last lines of the output. Python prints the words of the set in an order of its
  own; the model prints them in the order they were added.
\<close>

definition summary_lines :: "string list \<Rightarrow> string list" where
  "summary_lines total_found_words =
     (if length total_found_words > 0
      then [[], ''All words:''] @ map (\<lambda>word. ''    '' @ word) total_found_words
      else [''No words found.''])"

text \<open>
  The main routine: \<open>argv\<close> is \<open>sys.argv\<close>, \<open>files\<close> gives the lines of the files that
  can be opened. The result is the text printed and the set \<open>total_found_words\<close>, or the
  exception that ends the run. \<open>re.compile\<close> refuses a repetition count of
  \<open>MAXREPEAT\<close> (4294967295) or more.
\<close>

definition main ::
    "string list \<Rightarrow> (string \<Rightarrow> string list option) \<Rightarrow> heap
     \<Rightarrow> py_error + string list \<times> string list" where
  "main argv files h =
     (case (if length argv > 1 then py_int (argv ! 1) else Inr 4) of
        Inl e \<Rightarrow> Inl e
      | Inr chain_length \<Rightarrow>
          (let word_file_name =
                 (if length argv > 2 then argv ! 2 else ''/usr/share/dict/words'')
           in (case neighbor_chains states_and_neighbors chain_length h of
                 Inl e \<Rightarrow> Inl e
               | Inr chain_list \<Rightarrow>
                   (case files word_file_name of
                      None \<Rightarrow> Inl (FileNotFoundError word_file_name)
                    | Some file_lines \<Rightarrow>
                        (let word_length = chain_length * 2 in
                         if word_length \<ge> 4294967295 then Inl OverflowError
                         else
                           (case for_chains (read_words word_length file_lines Map.empty)
                                   chain_list ([], []) of
                              (printed, total_found_words) \<Rightarrow>
                                Inr (printed @ summary_lines total_found_words,
                                     total_found_words)))))))"

section \<open>Well-formed graphs and simple paths\<close>

text \<open>
  What the traversal relies on in the table: the keys are distinct, every state is
  filed under its own name, and every neighbour name is a key. \<open>linked p\<close>: each state
  of \<open>p\<close> lists the name of the next one among its neighbours.
\<close>

definition keys_are_names :: "graph \<Rightarrow> bool" where
  "keys_are_names g = list_all (\<lambda>(k, s). name s = k) g"

definition closed_graph :: "graph \<Rightarrow> bool" where
  "closed_graph g =
     list_all (\<lambda>(k, s). list_all (\<lambda>nm. nm \<in> fst ` set g) (neighbors s)) g"

definition graph_ok :: "graph \<Rightarrow> bool" where
  "graph_ok g \<longleftrightarrow> distinct (map fst g) \<and> keys_are_names g \<and> closed_graph g"

fun linked :: "State list \<Rightarrow> bool" where
  "linked (s # t # rest) = (name t \<in> set (neighbors s) \<and> linked (t # rest))"
| "linked [s] = True"
| "linked [] = True"

text \<open>The paths of \<open>n\<close> states through the graph.\<close>

definition simple_paths :: "graph \<Rightarrow> int \<Rightarrow> State list set" where
  "simple_paths g n =
     {p. int (length p) = n \<and> set p \<subseteq> snd ` set g \<and> distinct (map name p) \<and> linked p}"

text \<open>Two states of the table, for the examples.\<close>

definition alabama :: State where
  "alabama =
     State_init ''Alabama'' ''AL'' (Some [''Mississippi'', ''Tennessee'', ''Florida'', ''Georgia''])"

definition mississippi :: State where
  "mississippi =
     State_init ''Mississippi'' ''MS''
       (Some [''Louisiana'', ''Tennessee'', ''Alabama'', ''Arkansas''])"

text \<open>
  \<open>is_traversal g n p\<close>: \<open>p\<close> is a sequence of \<open>n\<close> pairwise distinct states of the
  table in which each successor's name is listed among its predecessor's neighbours.
\<close>

definition is_traversal :: "graph \<Rightarrow> int \<Rightarrow> State list \<Rightarrow> bool" where
  "is_traversal g n p \<longleftrightarrow>
     int (length p) = n \<and> set p \<subseteq> snd ` set g \<and> distinct p \<and>
     (\<forall>i. Suc i < length p \<longrightarrow> name (p ! Suc i) \<in> set (neighbors (p ! i)))"

text \<open>
  The table with every neighbour list put in another order: \<open>f\<close> rearranges a list.
\<close>

definition reorder_neighbors :: "(string list \<Rightarrow> string list) \<Rightarrow> graph \<Rightarrow> graph" where
  "reorder_neighbors f g = map (\<lambda>(k, s). (k, s\<lparr>neighbors := f (neighbors s)\<rparr>)) g"

text \<open>
  A graph of three nodes in a line, A - B - C, and the store in which
  \<open>build_neighbor_chains\<close> makes its first call of \<open>traverse_neighbor_chain\<close>: the list
  \<open>chains\<close> at reference 0, the new chain at 1, the new set at 2.
\<close>

definition line_graph :: graph where
  "line_graph =
     [(''A'', State_init ''A'' ''AA'' (Some [''B''])),
      (''B'', State_init ''B'' ''BB'' (Some [''A'', ''C''])),
      (''C'', State_init ''C'' ''CC'' (Some [''B'']))]"

definition node_a :: State where
  "node_a = State_init ''A'' ''AA'' (Some [''B''])"

definition node_b :: State where
  "node_b = State_init ''B'' ''BB'' (Some [''A'', ''C''])"

definition node_c :: State where
  "node_c = State_init ''C'' ''CC'' (Some [''B''])"

definition first_call_heap :: heap where
  "first_call_heap = snd (new_set (snd (new_list (snd (new_reflist empty_heap)))))"

text \<open>
  The words of a word file that are of the wanted form, as upper-cased and stripped: of
  length \<open>2 * chain_length\<close> and of the letters A to Z only.
\<close>

definition admitted_words :: "int \<Rightarrow> string list \<Rightarrow> string list" where
  "admitted_words chain_length file_lines =
     filter (\<lambda>word. int (length word) = chain_length * 2 \<and> (\<forall>c\<in>set word. is_upper_letter c))
       (map (\<lambda>line. upper (strip line)) file_lines)"

text \<open>
  The key the loop over the chains computes for a chain: \<open>generate_key\<close> of the
  abbreviations of its states, joined.
\<close>

definition chain_key :: "State list \<Rightarrow> string" where
  "chain_key chain = generate_key (concat (map get_abbr chain))"

text \<open>Two more states of the table, and a word file of three lines.\<close>

definition indiana :: State where
  "indiana = State_init ''Indiana'' ''IN'' (Some [''Michigan'', ''Ohio'', ''Illinois'', ''Kentucky''])"

definition michigan :: State where
  "michigan = State_init ''Michigan'' ''MI'' (Some [''Ohio'', ''Wisconsin'', ''Illinois'', ''Indiana''])"

definition three_lines :: "string list" where
  "three_lines = [''mini\<newline>'', '' dog\<newline>'', ''ab-d\<newline>'']"

section \<open>Stores, and what a call does to them\<close>

text \<open>
  What a call of \<open>traverse_neighbor_chain\<close> needs of the store (\<open>store_ready\<close>): its set
  and its chain are objects of the store, no chain that \<open>chains\<close> already refers to is
  the chain the call will extend, and its set holds the states of its chain. What the
  call, the loop over the neighbours and the loop over the states leave behind
  (\<open>traverse_post\<close>, \<open>loop_post\<close>, \<open>states_post\<close>): the chains found are appended to
  \<open>chains\<close>, as new objects, and the older sets and lists are as they were, but for the
  set and the chain of the call itself. \<open>refines\<close>: a run in the store and a pure result
  end in the same error, or the run ends in a store that has what the pure result says.
\<close>

definition store_ready :: "heap \<Rightarrow> ref \<Rightarrow> ref \<Rightarrow> ref \<Rightarrow> bool" where
  "store_ready h seen co chain \<longleftrightarrow>
     seen < next_ref h \<and> chain < next_ref h \<and>
     (\<forall>c\<in>set (reflist_objs h co). c < next_ref h \<and> c \<noteq> chain) \<and>
     name ` set (set_objs h seen) = name ` set (list_objs h chain)"

definition traverse_post ::
    "heap \<Rightarrow> ref \<Rightarrow> ref \<Rightarrow> ref \<Rightarrow> heap \<Rightarrow> State list list \<Rightarrow> bool" where
  "traverse_post h seen co chain h' found \<longleftrightarrow>
     next_ref h \<le> next_ref h' \<and>
     read_chains h' co = read_chains h co @ found \<and>
     (\<forall>c\<in>set (reflist_objs h' co).
        c < next_ref h' \<and> (c \<in> set (reflist_objs h co) \<or> c = chain \<or> next_ref h \<le> c)) \<and>
     (\<forall>r. r < next_ref h \<and> r \<noteq> chain \<longrightarrow> list_objs h' r = list_objs h r) \<and>
     (\<forall>r. r < next_ref h \<and> r \<noteq> seen \<longrightarrow> set_objs h' r = set_objs h r)"

definition loop_post :: "heap \<Rightarrow> ref \<Rightarrow> heap \<Rightarrow> State list list \<Rightarrow> bool" where
  "loop_post h co h' found \<longleftrightarrow>
     next_ref h \<le> next_ref h' \<and>
     read_chains h' co = read_chains h co @ found \<and>
     (\<forall>c\<in>set (reflist_objs h' co).
        c < next_ref h' \<and> (c \<in> set (reflist_objs h co) \<or> next_ref h \<le> c)) \<and>
     (\<forall>r. r < next_ref h \<longrightarrow> list_objs h' r = list_objs h r) \<and>
     (\<forall>r. r < next_ref h \<longrightarrow> set_objs h' r = set_objs h r)"

definition refines ::
    "py_error + heap \<Rightarrow> py_error + State list list \<Rightarrow> (heap \<Rightarrow> State list list \<Rightarrow> bool) \<Rightarrow> bool"
where
  "refines run pure post =
     (case run of
        Inl e \<Rightarrow> pure = Inl e
      | Inr h' \<Rightarrow> (case pure of Inl e \<Rightarrow> False | Inr found \<Rightarrow> post h' found))"

definition states_post :: "heap \<Rightarrow> ref \<Rightarrow> heap \<Rightarrow> State list list \<Rightarrow> bool" where
  "states_post h co h' found \<longleftrightarrow>
     read_chains h' co = read_chains h co @ found \<and>
     (\<forall>c\<in>set (reflist_objs h' co). c < next_ref h')"

section \<open>The traversal refines the reference enumeration\<close>

lemma refinesI_Inl: "run = Inl e \<Longrightarrow> pure = Inl e \<Longrightarrow> refines run pure post"
  by (simp add: refines_def)

lemma refinesI_Inr: "run = Inr h' \<Longrightarrow> pure = Inr found \<Longrightarrow> post h' found \<Longrightarrow> refines run pure post"
  by (simp add: refines_def)

lemma refines_cases:
  assumes "refines run pure post"
  obtains (err) e where "run = Inl e" "pure = Inl e"
        | (ok) h' found where "run = Inr h'" "pure = Inr found" "post h' found"
  using assms by (auto simp: refines_def split: sum.splits)

lemma read_chains_cong:
  "reflist_objs h' co = reflist_objs h co \<Longrightarrow>
   (\<And>c. c \<in> set (reflist_objs h co) \<Longrightarrow> list_objs h' c = list_objs h c) \<Longrightarrow>
   read_chains h' co = read_chains h co"
  by (simp add: read_chains_def)

lemma traverse_refines:
  "store_ready h seen co chain \<Longrightarrow>
     refines (traverse_neighbor_chain g state seen co chain d h)
       (enumerate_from g (list_objs h chain) state d) (traverse_post h seen co chain)"
  "store_ready h seen co chain \<Longrightarrow>
     refines (for_neighbors g ns seen co chain d h)
       (enumerate_branches g ns (list_objs h chain) d) (loop_post h co)"
proof (induction g state seen co chain d h and g ns seen co chain d h
    rule: traverse_neighbor_chain_for_neighbors.induct)
  case (1 g state states_seen chains_out chain max_depth h)
  note ready = \<open>store_ready h states_seen chains_out chain\<close>
  show ?case
  proof (cases "max_depth = 0")
    case True
    let ?h' = "reflist_append chains_out chain (list_append chain state h)"
    have run: "traverse_neighbor_chain g state states_seen chains_out chain max_depth h = Inr ?h'"
      using True by (simp add: traverse_neighbor_chain.simps)
    have pure: "enumerate_from g (list_objs h chain) state max_depth = Inr [list_objs h chain @ [state]]"
      using True by (simp add: enumerate_from.simps)
    have "map (list_objs (list_append chain state h)) (reflist_objs h chains_out)
        = map (list_objs h) (reflist_objs h chains_out)"
      using ready by (auto simp: store_ready_def heap_op_simps)
    then have post: "traverse_post h states_seen chains_out chain ?h' [list_objs h chain @ [state]]"
      using ready by (auto simp: traverse_post_def store_ready_def read_chains_def heap_op_simps)
    from run pure post show ?thesis by (rule refinesI_Inr)
  next
    case False
    define h2 where "h2 = set_add states_seen state (list_append chain state h)"
    have run: "traverse_neighbor_chain g state states_seen chains_out chain max_depth h
        = for_neighbors g (get_neighbors state) states_seen chains_out chain max_depth h2"
      using False by (simp add: traverse_neighbor_chain.simps h2_def)
    have path2: "list_objs h2 chain = list_objs h chain @ [state]"
      by (simp add: h2_def heap_op_simps)
    have pure: "enumerate_from g (list_objs h chain) state max_depth
        = enumerate_branches g (get_neighbors state) (list_objs h2 chain) max_depth"
      using False by (simp add: enumerate_from.simps path2 get_neighbors_def)
    have ready2: "store_ready h2 states_seen chains_out chain"
      using ready by (auto simp: store_ready_def h2_def heap_op_simps name_pyset_add)
    have facts: "next_ref h2 = next_ref h" "reflist_objs h2 = reflist_objs h"
      "\<And>r. r \<noteq> chain \<Longrightarrow> list_objs h2 r = list_objs h r"
      "\<And>r. r \<noteq> states_seen \<Longrightarrow> set_objs h2 r = set_objs h r"
      by (simp_all add: h2_def heap_op_simps)
    have rc: "read_chains h2 chains_out = read_chains h chains_out"
      using ready by (intro read_chains_cong) (auto simp: facts store_ready_def)
    from "1.IH"[OF refl False h2_def ready2]
    show ?thesis
    proof (cases rule: refines_cases)
      case (err e)
      then show ?thesis unfolding run pure by (rule refinesI_Inl)
    next
      case (ok h' found)
      from ok(3) have "traverse_post h states_seen chains_out chain h' found"
        by (auto simp: loop_post_def traverse_post_def facts rc)
      with ok(1,2) show ?thesis unfolding run pure by (rule refinesI_Inr)
    qed
  qed
next
  case (2 g states_seen chains_out chain max_depth h)
  then have "loop_post h chains_out h []"
    by (auto simp: loop_post_def store_ready_def)
  then show ?case
    by (intro refinesI_Inr[of _ h _ "[]"]) simp_all
next
  case (3 g neighbor_name rest states_seen chains_out chain max_depth h)
  note ready = \<open>store_ready h states_seen chains_out chain\<close>
  show ?case
  proof (cases "map_of g neighbor_name")
    case None
    then show ?thesis by (intro refinesI_Inl[of _ "KeyError neighbor_name"]) simp_all
  next
    case (Some neighbor)
    have seen_iff: "pyset_contains state_eq (set_objs h states_seen) neighbor
        \<longleftrightarrow> name neighbor \<in> name ` set (list_objs h chain)"
      using ready by (simp add: pyset_contains_state store_ready_def)
    show ?thesis
    proof (cases "pyset_contains state_eq (set_objs h states_seen) neighbor")
      case True
      have run: "for_neighbors g (neighbor_name # rest) states_seen chains_out chain max_depth h
          = for_neighbors g rest states_seen chains_out chain max_depth h"
        using Some True by simp
      have pure: "enumerate_branches g (neighbor_name # rest) (list_objs h chain) max_depth
          = enumerate_branches g rest (list_objs h chain) max_depth"
        using Some True seen_iff by simp
      from "3.IH"(1)[OF Some True ready] show ?thesis
        unfolding run pure .
    next
      case False
      define h1 where "h1 = snd (set_copy states_seen h)"
      define h2 where "h2 = snd (list_copy chain h1)"
      define ls where "ls = next_ref h"
      define lc where "lc = next_ref h1"
      have c1: "(ls, h1) = set_copy states_seen h"
        by (simp add: h1_def ls_def set_copy_def)
      have c2: "(lc, h2) = list_copy chain h1"
        by (simp add: h2_def lc_def list_copy_def)
      have facts: "lc = Suc (next_ref h)" "next_ref h2 = Suc (Suc (next_ref h))"
        "set_objs h2 = (set_objs h)(ls := set_objs h states_seen)"
        "list_objs h2 = (list_objs h)(lc := list_objs h chain)"
        "reflist_objs h2 = reflist_objs h"
        by (simp_all add: h1_def h2_def ls_def lc_def set_copy_def list_copy_def)
      have run: "for_neighbors g (neighbor_name # rest) states_seen chains_out chain max_depth h
          = (case traverse_neighbor_chain g neighbor ls chains_out lc (max_depth - 1) h2 of
               Inl e \<Rightarrow> Inl e
             | Inr h3 \<Rightarrow> for_neighbors g rest states_seen chains_out chain max_depth h3)"
        using Some False c1[symmetric] c2[symmetric] by simp
      have pure: "enumerate_branches g (neighbor_name # rest) (list_objs h chain) max_depth
          = (case enumerate_from g (list_objs h chain) neighbor (max_depth - 1) of
               Inl e \<Rightarrow> Inl e
             | Inr found \<Rightarrow>
                (case enumerate_branches g rest (list_objs h chain) max_depth of
                   Inl e \<Rightarrow> Inl e
                 | Inr others \<Rightarrow> Inr (found @ others)))"
        using Some False seen_iff by simp
      have ready2: "store_ready h2 ls chains_out lc"
        using ready by (auto simp: store_ready_def facts ls_def)
      have path2: "list_objs h2 lc = list_objs h chain"
        by (simp add: facts)
      have rc2: "read_chains h2 chains_out = read_chains h chains_out"
        using ready by (intro read_chains_cong) (auto simp: facts store_ready_def)
      from "3.IH"(2)[OF Some False c1 c2 ready2]
      show ?thesis
      proof (cases rule: refines_cases)
        case (err e)
        then show ?thesis
          unfolding run pure by (simp add: refines_def path2)
      next
        case (ok h3 found)
        note call = ok(1) and found = ok(2)[unfolded path2] and post = ok(3)
        have ready3: "store_ready h3 states_seen chains_out chain"
          using ready post
          by (auto simp: store_ready_def traverse_post_def facts ls_def)
        have path3: "list_objs h3 chain = list_objs h chain"
          using ready post by (auto simp: store_ready_def traverse_post_def facts)
        from "3.IH"(3)[OF Some False c1 c2 call ready3]
        show ?thesis
        proof (cases rule: refines_cases)
          case (err e)
          then show ?thesis
            unfolding run pure by (simp add: refines_def call found path3)
        next
          case (ok h' others)
          from post have p1: "Suc (Suc (next_ref h)) \<le> next_ref h3"
            and p2: "read_chains h3 chains_out = read_chains h chains_out @ found"
            and p3: "\<And>c. c \<in> set (reflist_objs h3 chains_out) \<Longrightarrow>
                  c \<in> set (reflist_objs h chains_out) \<or> next_ref h \<le> c"
            and p4: "\<And>r. r < next_ref h \<Longrightarrow> list_objs h3 r = list_objs h r"
            and p5: "\<And>r. r < next_ref h \<Longrightarrow> set_objs h3 r = set_objs h r"
            by (auto simp: traverse_post_def facts rc2 ls_def)
          from ok(3) have q1: "next_ref h3 \<le> next_ref h'"
            and q2: "read_chains h' chains_out = read_chains h3 chains_out @ others"
            and q3: "\<And>c. c \<in> set (reflist_objs h' chains_out) \<Longrightarrow>
                  c < next_ref h' \<and> (c \<in> set (reflist_objs h3 chains_out) \<or> next_ref h3 \<le> c)"
            and q4: "\<And>r. r < next_ref h3 \<Longrightarrow> list_objs h' r = list_objs h3 r"
            and q5: "\<And>r. r < next_ref h3 \<Longrightarrow> set_objs h' r = set_objs h3 r"
            by (auto simp: loop_post_def)
          have r3: "c < next_ref h' \<and> (c \<in> set (reflist_objs h chains_out) \<or> next_ref h \<le> c)"
            if "c \<in> set (reflist_objs h' chains_out)" for c
            using q3[OF that] p3[of c] p1 by auto
          have r4: "list_objs h' r = list_objs h r" if "r < next_ref h" for r
            using that q4[of r] p4[of r] p1 by simp
          have r5: "set_objs h' r = set_objs h r" if "r < next_ref h" for r
            using that q5[of r] p5[of r] p1 by simp
          have "loop_post h chains_out h' (found @ others)"
            unfolding loop_post_def using p1 q1 p2 q2 r3 r4 r5 by auto
          with ok(1,2) show ?thesis
            unfolding run pure by (simp add: refines_def call found path3)
        qed
      qed
    qed
  qed
qed


lemma for_states_refines:
  "\<forall>c\<in>set (reflist_objs h co). c < next_ref h \<Longrightarrow>
   refines (for_states g ss co n h) (enumerate_all g ss (n - 1)) (states_post h co)"
proof (induction ss arbitrary: h)
  case Nil
  then show ?case by (simp add: refines_def states_post_def)
next
  case (Cons state rest)
  define nc where "nc = next_ref h"
  define h1 where "h1 = snd (new_list h)"
  define sr where "sr = next_ref h1"
  define h2 where "h2 = snd (new_set h1)"
  have facts: "sr = Suc (next_ref h)" "next_ref h2 = Suc (Suc (next_ref h))"
    "set_objs h2 = (set_objs h)(sr := [])"
    "list_objs h2 = (list_objs h)(nc := [])"
    "reflist_objs h2 = reflist_objs h"
    by (simp_all add: h1_def h2_def sr_def nc_def new_list_def new_set_def)
  have run: "for_states g (state # rest) co n h
      = (case traverse_neighbor_chain g state sr co nc (n - 1) h2 of
           Inl e \<Rightarrow> Inl e
         | Inr h3 \<Rightarrow> for_states g rest co n h3)"
    by (simp add: h1_def h2_def sr_def nc_def new_list_def new_set_def)
  have ready: "store_ready h2 sr co nc"
    using Cons.prems by (auto simp: store_ready_def facts nc_def)
  have path: "list_objs h2 nc = []"
    by (simp add: facts)
  have rc: "read_chains h2 co = read_chains h co"
    using Cons.prems by (intro read_chains_cong) (auto simp: facts nc_def)
  from traverse_refines(1)[OF ready, of g state "n - 1"]
  show ?case
  proof (cases rule: refines_cases)
    case (err e)
    then show ?thesis
      unfolding run by (simp add: refines_def path)
  next
    case (ok h3 found)
    note call = ok(1) and found = ok(2)[unfolded path] and post = ok(3)
    from post have p2: "read_chains h3 co = read_chains h co @ found"
      and p3: "\<forall>c\<in>set (reflist_objs h3 co). c < next_ref h3"
      by (auto simp: traverse_post_def rc)
    from Cons.IH[OF p3]
    show ?thesis
    proof (cases rule: refines_cases)
      case (err e)
      then show ?thesis
        unfolding run by (simp add: refines_def call found)
    next
      case (ok h' others)
      from ok(3) p2 have "states_post h co h' (found @ others)"
        by (simp add: states_post_def)
      with ok(1,2) show ?thesis
        unfolding run by (simp add: refines_def call found)
    qed
  qed
qed

lemma neighbor_chains_refines: "neighbor_chains g n h = enumerate_paths g n"
proof -
  define co where "co = next_ref h"
  define h0 where "h0 = snd (new_reflist h)"
  have h0: "new_reflist h = (co, h0)" "reflist_objs h0 co = []"
    by (simp_all add: co_def h0_def new_reflist_def)
  then have "\<forall>c\<in>set (reflist_objs h0 co). c < next_ref h0"
    by simp
  from for_states_refines[OF this, of g "map snd g" n]
  show ?thesis
    by (cases rule: refines_cases)
       (simp_all add: neighbor_chains_def build_neighbor_chains_def enumerate_paths_def h0
          states_post_def read_chains_def)
qed

section \<open>What the reference enumeration returns\<close>

lemma keys_are_namesD: "keys_are_names g \<Longrightarrow> map_of g k = Some s \<Longrightarrow> name s = k"
  by (auto simp: keys_are_names_def list_all_iff dest: map_of_SomeD)

lemma map_of_in_values: "map_of g k = Some s \<Longrightarrow> s \<in> snd ` set g"
  by (force dest: map_of_SomeD)

lemma enumerate_negative:
  "d < 0 \<Longrightarrow> enumerate_from g path s d = Inr cs \<Longrightarrow> cs = []"
  "d < 0 \<Longrightarrow> enumerate_branches g ns path d = Inr cs \<Longrightarrow> cs = []"
proof (induction g path s d and g ns path d arbitrary: cs and cs
    rule: enumerate_from_enumerate_branches.induct)
  case (1 g path state depth)
  then show ?case by (simp add: enumerate_from.simps)
next
  case (2 g path depth)
  then show ?case by simp
next
  case (3 g nm rest path depth)
  from "3.prems" show ?case
    by (auto split: option.splits if_splits sum.splits
        dest: "3.IH"(1) "3.IH"(2)[rotated -1] "3.IH"(3)[rotated -1])
qed


lemma closed_graphD:
  "closed_graph g \<Longrightarrow> s \<in> snd ` set g \<Longrightarrow> nm \<in> set (neighbors s) \<Longrightarrow> \<exists>t. map_of g nm = Some t"
proof -
  assume "closed_graph g" "s \<in> snd ` set g" "nm \<in> set (neighbors s)"
  then have "nm \<in> fst ` set g"
    by (fastforce simp: closed_graph_def list_all_iff)
  then show ?thesis
    by (cases "map_of g nm") (auto simp: map_of_eq_None_iff)
qed

lemma enumerate_no_error:
  "closed_graph g \<Longrightarrow> s \<in> snd ` set g \<Longrightarrow> \<exists>cs. enumerate_from g path s d = Inr cs"
  "closed_graph g \<Longrightarrow> \<forall>nm\<in>set ns. \<exists>t. map_of g nm = Some t \<Longrightarrow>
     \<exists>cs. enumerate_branches g ns path d = Inr cs"
proof (induction g path s d and g ns path d
    rule: enumerate_from_enumerate_branches.induct)
  case (1 g path state depth)
  show ?case
  proof (cases "depth = 0")
    case True
    then show ?thesis by (simp add: enumerate_from.simps)
  next
    case False
    from "1.prems" have "\<forall>nm\<in>set (neighbors state). \<exists>t. map_of g nm = Some t"
      by (blast dest: closed_graphD)
    from "1.IH"[OF False "1.prems"(1) this] False show ?thesis
      by (simp add: enumerate_from.simps)
  qed
next
  case (2 g path depth)
  show ?case by simp
next
  case (3 g nm rest path depth)
  from "3.prems"(2) obtain nb where look: "map_of g nm = Some nb"
    by auto
  from "3.prems"(2) have rest: "\<forall>nm\<in>set rest. \<exists>t. map_of g nm = Some t"
    by simp
  show ?case
  proof (cases "name nb \<in> name ` set path")
    case True
    from "3.IH"(1)[OF look True "3.prems"(1) rest] look True show ?thesis
      by simp
  next
    case False
    from "3.IH"(2)[OF look False "3.prems"(1) map_of_in_values[OF look]]
    obtain found where found: "enumerate_from g path nb (depth - 1) = Inr found"
      by blast
    from "3.IH"(3)[OF look False found "3.prems"(1) rest]
    obtain others where "enumerate_branches g rest path depth = Inr others"
      by blast
    with look False found show ?thesis
      by simp
  qed
qed

lemma enumerate_sound:
  "keys_are_names g \<Longrightarrow> enumerate_from g path s d = Inr cs \<Longrightarrow> c \<in> set cs \<Longrightarrow>
     \<exists>ext. c = path @ s # ext \<and> int (length ext) = d \<and> set ext \<subseteq> snd ` set g \<and>
       linked (s # ext) \<and> (distinct (map name (path @ [s])) \<longrightarrow> distinct (map name c))"
  "keys_are_names g \<Longrightarrow> enumerate_branches g ns path d = Inr cs \<Longrightarrow> c \<in> set cs \<Longrightarrow>
     \<exists>nb ext. c = path @ nb # ext \<and> name nb \<in> set ns \<and> nb \<in> snd ` set g \<and>
       int (length ext) = d - 1 \<and> set ext \<subseteq> snd ` set g \<and> linked (nb # ext) \<and>
       (distinct (map name path) \<longrightarrow> distinct (map name c))"
proof (induction g path s d and g ns path d arbitrary: cs c and cs c
    rule: enumerate_from_enumerate_branches.induct)
  case (1 g path state depth)
  show ?case
  proof (cases "depth = 0")
    case True
    with "1.prems" show ?thesis by (auto simp: enumerate_from.simps)
  next
    case False
    with "1.prems" have "enumerate_branches g (neighbors state) (path @ [state]) depth = Inr cs"
      by (simp add: enumerate_from.simps)
    from "1.IH"[OF False "1.prems"(1) this "1.prems"(3)]
    obtain nb ext where c: "c = (path @ [state]) @ nb # ext"
      and nb: "name nb \<in> set (neighbors state)" "nb \<in> snd ` set g"
      and ext: "int (length ext) = depth - 1" "set ext \<subseteq> snd ` set g" "linked (nb # ext)"
      and dist: "distinct (map name (path @ [state])) \<longrightarrow> distinct (map name c)"
      by blast
    show ?thesis
      by (rule exI[of _ "nb # ext"]) (use c nb ext dist in auto)
  qed
next
  case (2 g path depth)
  then show ?case by simp
next
  case (3 g nm rest path depth)
  from "3.prems"(2) obtain nb where look: "map_of g nm = Some nb"
    by (auto split: option.splits)
  have nm: "name nb = nm"
    using "3.prems"(1) look by (rule keys_are_namesD)
  show ?case
  proof (cases "name nb \<in> name ` set path")
    case True
    with "3.prems"(2) look have "enumerate_branches g rest path depth = Inr cs"
      by simp
    from "3.IH"(1)[OF look True "3.prems"(1) this "3.prems"(3)] show ?thesis
      by auto
  next
    case False
    with "3.prems"(2) look obtain found others where
      found: "enumerate_from g path nb (depth - 1) = Inr found"
      and others: "enumerate_branches g rest path depth = Inr others"
      and cs: "cs = found @ others"
      by (auto split: sum.splits)
    from "3.prems"(3) cs consider "c \<in> set found" | "c \<in> set others"
      by auto
    then show ?thesis
    proof cases
      case 1
      from "3.IH"(2)[OF look False "3.prems"(1) found 1]
      obtain ext where "c = path @ nb # ext" "int (length ext) = depth - 1"
        "set ext \<subseteq> snd ` set g" "linked (nb # ext)"
        "distinct (map name (path @ [nb])) \<longrightarrow> distinct (map name c)"
        by blast
      with False nm map_of_in_values[OF look] show ?thesis
        by (intro exI[of _ nb] exI[of _ ext]) auto
    next
      case 2
      from "3.IH"(3)[OF look False found "3.prems"(1) others 2] show ?thesis
        by auto
    qed
  qed
qed


lemma map_of_value:
  "distinct (map fst g) \<Longrightarrow> keys_are_names g \<Longrightarrow> s \<in> snd ` set g \<Longrightarrow>
   map_of g (name s) = Some s"
proof -
  assume d: "distinct (map fst g)" and k: "keys_are_names g" and "s \<in> snd ` set g"
  then obtain key where mem: "(key, s) \<in> set g"
    by auto
  with k have "name s = key"
    by (auto simp: keys_are_names_def list_all_iff)
  with d mem show ?thesis
    by simp
qed

lemma enumerate_complete:
  "distinct (map fst g) \<Longrightarrow> keys_are_names g \<Longrightarrow>
   enumerate_from g path s d = Inr cs \<Longrightarrow> int (length ext) = d \<Longrightarrow>
   set ext \<subseteq> snd ` set g \<Longrightarrow> linked (s # ext) \<Longrightarrow>
   distinct (map name (path @ s # ext)) \<Longrightarrow> path @ s # ext \<in> set cs"
  "distinct (map fst g) \<Longrightarrow> keys_are_names g \<Longrightarrow>
   enumerate_branches g ns path d = Inr cs \<Longrightarrow> name nb \<in> set ns \<Longrightarrow>
   nb \<in> snd ` set g \<Longrightarrow> int (length ext) = d - 1 \<Longrightarrow>
   set ext \<subseteq> snd ` set g \<Longrightarrow> linked (nb # ext) \<Longrightarrow>
   distinct (map name (path @ nb # ext)) \<Longrightarrow> path @ nb # ext \<in> set cs"
proof (induction g path s d and g ns path d arbitrary: cs ext and cs nb ext
    rule: enumerate_from_enumerate_branches.induct)
  case (1 g path state depth)
  show ?case
  proof (cases "depth = 0")
    case True
    with "1.prems" show ?thesis by (auto simp: enumerate_from.simps)
  next
    case False
    with "1.prems"(4) obtain nb ext' where ext: "ext = nb # ext'"
      by (cases ext) auto
    from False "1.prems"(3)
    have run: "enumerate_branches g (neighbors state) (path @ [state]) depth = Inr cs"
      by (simp add: enumerate_from.simps)
    have "(path @ [state]) @ nb # ext' \<in> set cs"
      by (rule "1.IH"[OF False "1.prems"(1,2) run])
         (use "1.prems"(4-7) ext in auto)
    then show ?thesis by (simp add: ext)
  qed
next
  case (2 g path depth)
  then show ?case by simp
next
  case (3 g nm rest path depth)
  from "3.prems"(3) obtain nb' where look: "map_of g nm = Some nb'"
    by (auto split: option.splits)
  show ?case
  proof (cases "name nb' \<in> name ` set path")
    case True
    with "3.prems"(3) look have run: "enumerate_branches g rest path depth = Inr cs"
      by simp
    have "name nb \<noteq> nm"
    proof
      assume "name nb = nm"
      with map_of_value[OF "3.prems"(1,2,5)] look have "nb' = nb" by simp
      with True "3.prems"(9) show False by auto
    qed
    with "3.prems"(4) have "name nb \<in> set rest" by simp
    from "3.IH"(1)[OF look True "3.prems"(1,2) run this "3.prems"(5-9)]
    show ?thesis .
  next
    case False
    with "3.prems"(3) look obtain found others where
      found: "enumerate_from g path nb' (depth - 1) = Inr found"
      and others: "enumerate_branches g rest path depth = Inr others"
      and cs: "cs = found @ others"
      by (auto split: sum.splits)
    show ?thesis
    proof (cases "name nb = nm")
      case True
      with map_of_value[OF "3.prems"(1,2,5)] look have same: "nb' = nb" by simp
      from "3.IH"(2)[OF look False "3.prems"(1,2) found "3.prems"(6,7)]
        "3.prems"(8,9)
      have "path @ nb # ext \<in> set found"
        by (simp add: same)
      then show ?thesis by (simp add: cs)
    next
      case False
      with "3.prems"(4) have "name nb \<in> set rest" by simp
      from "3.IH"(3)[OF look \<open>name nb' \<notin> name ` set path\<close> found "3.prems"(1,2) others this
          "3.prems"(5-9)]
      show ?thesis by (simp add: cs)
    qed
  qed
qed


lemma enumerate_all_no_error:
  "closed_graph g \<Longrightarrow> set ss \<subseteq> snd ` set g \<Longrightarrow> \<exists>cs. enumerate_all g ss d = Inr cs"
proof (induction ss)
  case Nil
  show ?case by simp
next
  case (Cons s ss)
  from enumerate_no_error(1)[OF Cons.prems(1), of s "[]" d] Cons.prems(2)
  obtain found where "enumerate_from g [] s d = Inr found" by auto
  moreover from Cons obtain others where "enumerate_all g ss d = Inr others" by auto
  ultimately show ?case by simp
qed

lemma enumerate_all_negative: "d < 0 \<Longrightarrow> enumerate_all g ss d = Inr cs \<Longrightarrow> cs = []"
proof (induction ss arbitrary: cs)
  case Nil
  then show ?case by simp
next
  case (Cons s ss)
  from Cons.prems(2) obtain found others where
    "enumerate_from g [] s d = Inr found" "enumerate_all g ss d = Inr others" "cs = found @ others"
    by (auto split: sum.splits)
  with Cons.IH[OF Cons.prems(1)] enumerate_negative(1)[OF Cons.prems(1)] show ?case
    by simp
qed

lemma enumerate_all_single: "enumerate_all g ss 0 = Inr (map (\<lambda>s. [s]) ss)"
  by (induction ss) (simp_all add: enumerate_from.simps)

lemma enumerate_all_sound:
  "keys_are_names g \<Longrightarrow> enumerate_all g ss d = Inr cs \<Longrightarrow> c \<in> set cs \<Longrightarrow>
   \<exists>s ext. c = s # ext \<and> s \<in> set ss \<and> int (length ext) = d \<and> set ext \<subseteq> snd ` set g \<and>
     linked c \<and> distinct (map name c)"
proof (induction ss arbitrary: cs)
  case Nil
  then show ?case by simp
next
  case (Cons s ss)
  from Cons.prems(2) obtain found others where
    found: "enumerate_from g [] s d = Inr found"
    and others: "enumerate_all g ss d = Inr others" and cs: "cs = found @ others"
    by (auto split: sum.splits)
  from Cons.prems(3) cs consider "c \<in> set found" | "c \<in> set others" by auto
  then show ?case
  proof cases
    case 1
    from enumerate_sound(1)[OF Cons.prems(1) found 1] show ?thesis by auto
  next
    case 2
    from Cons.IH[OF Cons.prems(1) others 2] show ?thesis by auto
  qed
qed

lemma enumerate_all_complete:
  "distinct (map fst g) \<Longrightarrow> keys_are_names g \<Longrightarrow> enumerate_all g ss d = Inr cs \<Longrightarrow>
   s \<in> set ss \<Longrightarrow> int (length ext) = d \<Longrightarrow> set ext \<subseteq> snd ` set g \<Longrightarrow> linked (s # ext) \<Longrightarrow>
   distinct (map name (s # ext)) \<Longrightarrow> s # ext \<in> set cs"
proof (induction ss arbitrary: cs)
  case Nil
  then show ?case by simp
next
  case (Cons s' ss)
  from Cons.prems(3) obtain found others where
    found: "enumerate_from g [] s' d = Inr found"
    and others: "enumerate_all g ss d = Inr others" and cs: "cs = found @ others"
    by (auto split: sum.splits)
  show ?case
  proof (cases "s = s'")
    case True
    from enumerate_complete(1)[OF Cons.prems(1,2) found Cons.prems(5,6)]
      Cons.prems(7,8) True
    show ?thesis by (simp add: cs)
  next
    case False
    with Cons.prems(4) have "s \<in> set ss" by simp
    from Cons.IH[OF Cons.prems(1,2) others this Cons.prems(5-8)] show ?thesis
      by (simp add: cs)
  qed
qed

lemma enumerate_paths_ok:
  assumes "graph_ok g"
  shows "\<exists>cs. enumerate_paths g n = Inr cs \<and> set cs = (if 1 \<le> n then simple_paths g n else {})"
proof -
  from assms have d: "distinct (map fst g)" and k: "keys_are_names g" and c: "closed_graph g"
    by (simp_all add: graph_ok_def)
  from enumerate_all_no_error[OF c, of "map snd g" "n - 1"]
  obtain cs where cs: "enumerate_all g (map snd g) (n - 1) = Inr cs"
    by auto
  show ?thesis
  proof (cases "1 \<le> n")
    case False
    with enumerate_all_negative[OF _ cs] have "cs = []" by simp
    with cs False show ?thesis by (simp add: enumerate_paths_def)
  next
    case True
    have "set cs = simple_paths g n"
    proof (intro set_eqI iffI)
      fix p assume "p \<in> set cs"
      from enumerate_all_sound[OF k cs this] show "p \<in> simple_paths g n"
        by (fastforce simp: simple_paths_def)
    next
      fix p assume p: "p \<in> simple_paths g n"
      with True obtain s ext where "p = s # ext"
        by (cases p) (auto simp: simple_paths_def)
      with p have "s \<in> set (map snd g)" "int (length ext) = n - 1" "set ext \<subseteq> snd ` set g"
        "linked (s # ext)" "distinct (map name (s # ext))"
        by (auto simp: simple_paths_def)
      from enumerate_all_complete[OF d k cs this] show "p \<in> set cs"
        by (simp add: \<open>p = s # ext\<close>)
    qed
    with cs True show ?thesis by (simp add: enumerate_paths_def)
  qed
qed

lemma graph_ok_static: "graph_ok states_and_neighbors"
  by code_simp

section \<open>The static table\<close>

lemma alabama_in_table: "alabama \<in> snd ` set states_and_neighbors"
  by (simp add: states_and_neighbors_def alabama_def)

lemma mississippi_in_table: "mississippi \<in> snd ` set states_and_neighbors"
  by (simp add: states_and_neighbors_def mississippi_def image_iff)

lemma neighbor_chains_static:
  "\<exists>cs. neighbor_chains states_and_neighbors n h = Inr cs \<and>
     set cs = (if 1 \<le> n then simple_paths states_and_neighbors n else {})"
  using enumerate_paths_ok[OF graph_ok_static] by (simp add: neighbor_chains_refines)

lemma static_table_check:
  "list_all (\<lambda>(k, s). list_all (\<lambda>nm. case map_of states_and_neighbors nm of
        None \<Rightarrow> False | Some t \<Rightarrow> name s \<in> set (neighbors t)) (neighbors s))
     states_and_neighbors"
  by code_simp

lemma static_table_isolated:
  "map fst (filter (\<lambda>(k, s). neighbors s = []) states_and_neighbors) = [''Alaska'', ''Hawaii'']"
  by code_simp

text \<open>
  Claim C9. In the table \<open>states_and_neighbors\<close> every neighbour name listed for a state
  is a key of the table (the lookup of the traversal finds a state, and it is the state
  of that name); the adjacency is symmetric: for states \<open>a\<close> and \<open>b\<close> of the table, \<open>b\<close>'s
  name is in \<open>a\<close>'s neighbour list if and only if \<open>a\<close>'s name is in \<open>b\<close>'s; and the states
  with an empty neighbour list are exactly Alaska and Hawaii.
\<close>

theorem static_table_closed_and_symmetric:
  "(\<forall>s\<in>snd ` set states_and_neighbors. \<forall>nm\<in>set (neighbors s).
      \<exists>t. map_of states_and_neighbors nm = Some t \<and> name t = nm) \<and>
   (\<forall>a\<in>snd ` set states_and_neighbors. \<forall>b\<in>snd ` set states_and_neighbors.
      name b \<in> set (neighbors a) \<longleftrightarrow> name a \<in> set (neighbors b)) \<and>
   map fst (filter (\<lambda>(k, s). neighbors s = []) states_and_neighbors) = [''Alaska'', ''Hawaii'']"
proof (intro conjI ballI)
  fix s nm assume s: "s \<in> snd ` set states_and_neighbors" and nm: "nm \<in> set (neighbors s)"
  from graph_ok_static have c: "closed_graph states_and_neighbors"
    and k: "keys_are_names states_and_neighbors"
    by (simp_all add: graph_ok_def)
  from closed_graphD[OF c s nm] obtain t where "map_of states_and_neighbors nm = Some t"
    by blast
  with keys_are_namesD[OF k this]
  show "\<exists>t. map_of states_and_neighbors nm = Some t \<and> name t = nm"
    by simp
next
  fix a b assume a: "a \<in> snd ` set states_and_neighbors"
    and b: "b \<in> snd ` set states_and_neighbors"
  from graph_ok_static have d: "distinct (map fst states_and_neighbors)"
    and k: "keys_are_names states_and_neighbors"
    by (simp_all add: graph_ok_def)
  have half: "name y \<in> set (neighbors x)"
    if x: "x \<in> snd ` set states_and_neighbors" and y: "y \<in> snd ` set states_and_neighbors"
      and xy: "name x \<in> set (neighbors y)" for x y
  proof -
    from y obtain ky where "(ky, y) \<in> set states_and_neighbors" by auto
    with static_table_check xy
    have "case map_of states_and_neighbors (name x) of
            None \<Rightarrow> False | Some t \<Rightarrow> name y \<in> set (neighbors t)"
      by (fastforce simp: list_all_iff)
    with map_of_value[OF d k x] show ?thesis by simp
  qed
  from half[OF a b] half[OF b a]
  show "name b \<in> set (neighbors a) \<longleftrightarrow> name a \<in> set (neighbors b)"
    by blast
next
  show "map fst (filter (\<lambda>(k, s). neighbors s = []) states_and_neighbors)
      = [''Alaska'', ''Hawaii'']"
    by (rule static_table_isolated)
qed

text \<open>The claim at Alabama and Mississippi.\<close>

theorem static_table_closed_and_symmetric_witness:
  "alabama \<in> snd ` set states_and_neighbors \<and> mississippi \<in> snd ` set states_and_neighbors \<and>
   ''Mississippi'' \<in> set (neighbors alabama) \<and>
   (\<exists>t. map_of states_and_neighbors ''Mississippi'' = Some t \<and> name t = ''Mississippi'') \<and>
   name mississippi \<in> set (neighbors alabama) \<and> name alabama \<in> set (neighbors mississippi)"
proof -
  have nb: "''Mississippi'' \<in> set (neighbors alabama)" "name mississippi = ''Mississippi''"
    by (simp_all add: alabama_def mississippi_def State_init_def)
  from static_table_closed_and_symmetric alabama_in_table mississippi_in_table nb
  show ?thesis by (metis (no_types, lifting))
qed

section \<open>Determinism and termination\<close>

text \<open>
  Claim C4. Two runs of the enumerator on the same table and the same chain length
  return the same list of chains, equal element by element and in the same order. A
  run differs from another only in the store it starts from, that is in the references
  its objects get; the chains it returns do not depend on it.
\<close>

theorem enumerator_deterministic: "neighbor_chains g n h1 = neighbor_chains g n h2"
  by (simp add: neighbor_chains_refines)

text \<open>
  Claim C10. \<open>build_neighbor_chains\<close> returns for every integer chain length, also for
  zero and for negative ones (the traversal is a total function: its recursion is
  bounded by the names the visited set does not hold yet, see the termination proof of
  \<open>traverse_neighbor_chain\<close>), it raises no error on the static table, and for a chain
  length of zero or less the list of chains it returns is empty.
\<close>

theorem build_neighbor_chains_total:
  "\<exists>r h'. build_neighbor_chains states_and_neighbors n h = Inr (r, h') \<and>
     (n \<le> 0 \<longrightarrow> read_chains h' r = [])"
proof -
  from neighbor_chains_static[of n h] obtain cs where
    cs: "neighbor_chains states_and_neighbors n h = Inr cs"
    and set_cs: "set cs = (if 1 \<le> n then simple_paths states_and_neighbors n else {})"
    by blast
  from cs obtain r h' where run: "build_neighbor_chains states_and_neighbors n h = Inr (r, h')"
    and val: "read_chains h' r = cs"
    by (auto simp: neighbor_chains_def split: sum.splits)
  from set_cs val have "n \<le> 0 \<longrightarrow> read_chains h' r = []"
    by auto
  with run show ?thesis by blast
qed

text \<open>The claim at chain length -1.\<close>

theorem build_neighbor_chains_total_witness:
  "\<exists>r h'. build_neighbor_chains states_and_neighbors (- 1) empty_heap = Inr (r, h') \<and>
     read_chains h' r = []"
  using build_neighbor_chains_total[of "- 1" empty_heap] by simp

section \<open>The chains of the static table\<close>

lemma linked_iff_nth:
  "linked p \<longleftrightarrow> (\<forall>i. Suc i < length p \<longrightarrow> name (p ! Suc i) \<in> set (neighbors (p ! i)))"
proof (induction p rule: linked.induct)
  case (1 s t rest)
  have "(\<forall>i. Suc i < length (s # t # rest) \<longrightarrow>
           name ((s # t # rest) ! Suc i) \<in> set (neighbors ((s # t # rest) ! i)))
      \<longleftrightarrow> name t \<in> set (neighbors s) \<and>
          (\<forall>i. Suc i < length (t # rest) \<longrightarrow>
             name ((t # rest) ! Suc i) \<in> set (neighbors ((t # rest) ! i)))"
    (is "?L \<longleftrightarrow> ?R")
  proof
    assume l: ?L
    from l[rule_format, of 0] have "name t \<in> set (neighbors s)" by simp
    moreover have "name ((t # rest) ! Suc i) \<in> set (neighbors ((t # rest) ! i))"
      if "Suc i < length (t # rest)" for i
      using l[rule_format, of "Suc i"] that by simp
    ultimately show ?R by blast
  next
    assume r: ?R
    show ?L
    proof (intro allI impI)
      fix i assume "Suc i < length (s # t # rest)"
      with r show "name ((s # t # rest) ! Suc i) \<in> set (neighbors ((s # t # rest) ! i))"
        by (cases i) auto
    qed
  qed
  with 1 show ?case by simp
qed simp_all

lemma name_inj_on_values:
  assumes d: "distinct (map fst g)" and k: "keys_are_names g"
  shows "inj_on name (snd ` set g)"
proof (rule inj_onI)
  fix s t assume st: "s \<in> snd ` set g" "t \<in> snd ` set g" "name s = name t"
  from map_of_value[OF d k st(1)] map_of_value[OF d k st(2)] st(3) show "s = t"
    by (metis option.inject)
qed

lemma is_traversal_simple_path:
  assumes "graph_ok g"
  shows "is_traversal g n p \<longleftrightarrow> p \<in> simple_paths g n"
proof -
  from assms have "inj_on name (snd ` set g)"
    by (simp add: graph_ok_def name_inj_on_values)
  then have "distinct (map name p) \<longleftrightarrow> distinct p" if "set p \<subseteq> snd ` set g"
    using that by (auto simp: distinct_map intro: inj_on_subset)
  then show ?thesis
    by (auto simp: is_traversal_def simple_paths_def linked_iff_nth)
qed

text \<open>
  Claim C1. For every chain length \<open>n \<ge> 1\<close>, every chain \<open>build_neighbor_chains\<close>
  produces has exactly \<open>n\<close> states, all of them states of the table, no state occurs
  twice in it (no two of its states have the same name), and each state of the chain
  lists the name of the next one in its neighbour list.
\<close>

theorem chains_are_simple_paths:
  "1 \<le> n \<Longrightarrow>
   \<exists>cs. neighbor_chains states_and_neighbors n h = Inr cs \<and>
     (\<forall>c\<in>set cs. int (length c) = n \<and> set c \<subseteq> snd ` set states_and_neighbors \<and>
        distinct (map name c) \<and>
        (\<forall>i. Suc i < length c \<longrightarrow> name (c ! Suc i) \<in> set (neighbors (c ! i))))"
proof -
  assume "1 \<le> n"
  with neighbor_chains_static[of n h] obtain cs where
    "neighbor_chains states_and_neighbors n h = Inr cs"
    "set cs = simple_paths states_and_neighbors n"
    by auto
  then show ?thesis
    by (auto simp: simple_paths_def linked_iff_nth)
qed

lemma alabama_mississippi: "is_traversal states_and_neighbors 2 [alabama, mississippi]"
  using alabama_in_table mississippi_in_table
  by (simp add: is_traversal_def) (simp add: alabama_def mississippi_def State_init_def)

lemma mississippi_alabama: "is_traversal states_and_neighbors 2 [mississippi, alabama]"
  using alabama_in_table mississippi_in_table
  by (simp add: is_traversal_def) (simp add: alabama_def mississippi_def State_init_def)

text \<open>The claim at chain length 2, on the chain Alabama, Mississippi.\<close>

theorem chains_are_simple_paths_witness:
  "\<exists>cs. neighbor_chains states_and_neighbors 2 empty_heap = Inr cs \<and>
     [alabama, mississippi] \<in> set cs \<and>
     int (length [alabama, mississippi]) = 2 \<and>
     distinct (map name [alabama, mississippi]) \<and>
     name ([alabama, mississippi] ! 1) \<in> set (neighbors ([alabama, mississippi] ! 0))"
proof -
  from chains_are_simple_paths[of 2 empty_heap] obtain cs where
    cs: "neighbor_chains states_and_neighbors 2 empty_heap = Inr cs"
    and all: "\<forall>c\<in>set cs. int (length c) = 2 \<and> set c \<subseteq> snd ` set states_and_neighbors \<and>
        distinct (map name c) \<and>
        (\<forall>i. Suc i < length c \<longrightarrow> name (c ! Suc i) \<in> set (neighbors (c ! i)))"
    by auto
  from neighbor_chains_static[of 2 empty_heap] cs alabama_mississippi
  have mem: "[alabama, mississippi] \<in> set cs"
    by (simp add: is_traversal_simple_path[OF graph_ok_static])
  from all[rule_format, OF mem] have "int (length [alabama, mississippi]) = 2"
    "distinct (map name [alabama, mississippi])"
    "name ([alabama, mississippi] ! Suc 0) \<in> set (neighbors ([alabama, mississippi] ! 0))"
    by simp_all
  with cs mem show ?thesis by simp
qed

text \<open>
  Claim C2. For every chain length \<open>n \<ge> 1\<close>, \<open>build_neighbor_chains\<close> is complete: every
  sequence of \<open>n\<close> pairwise distinct states of the table in which each successor's name
  is listed among its predecessor's neighbours is among the chains returned; a path of
  two or more states and its reverse, when both are such sequences, are both returned,
  as two different chains; and for \<open>n = 1\<close> the chains are the single states of the table,
  one chain for each, in table order.
\<close>

theorem every_simple_path_is_emitted:
  "1 \<le> n \<Longrightarrow>
   \<exists>cs. neighbor_chains states_and_neighbors n h = Inr cs \<and>
     (\<forall>p. is_traversal states_and_neighbors n p \<longrightarrow> p \<in> set cs) \<and>
     (\<forall>p. is_traversal states_and_neighbors n p \<and> is_traversal states_and_neighbors n (rev p)
          \<and> 2 \<le> n \<longrightarrow> p \<in> set cs \<and> rev p \<in> set cs \<and> rev p \<noteq> p) \<and>
     (n = 1 \<longrightarrow> cs = map (\<lambda>s. [s]) (map snd states_and_neighbors))"
proof -
  assume n: "1 \<le> n"
  with neighbor_chains_static[of n h] obtain cs where
    cs: "neighbor_chains states_and_neighbors n h = Inr cs"
    and set_cs: "set cs = simple_paths states_and_neighbors n"
    by auto
  have mem: "p \<in> set cs" if "is_traversal states_and_neighbors n p" for p
    using that set_cs by (simp add: is_traversal_simple_path[OF graph_ok_static])
  have differ: "rev p \<noteq> p" if "is_traversal states_and_neighbors n p" "2 \<le> n" for p
  proof -
    from that obtain a b rest where p: "p = a # b # rest"
      by (cases p; cases "tl p") (auto simp: is_traversal_def)
    with that(1) have "a \<noteq> last (b # rest)"
      by (auto simp: is_traversal_def)
    moreover have "hd (rev p) = last (b # rest)"
      by (simp add: p hd_rev)
    ultimately have "hd (rev p) \<noteq> hd p"
      by (simp add: p)
    then show ?thesis by auto
  qed
  have single: "cs = map (\<lambda>s. [s]) (map snd states_and_neighbors)" if "n = 1"
    using cs that by (simp add: neighbor_chains_refines enumerate_paths_def enumerate_all_single)
  from cs mem differ single show ?thesis
    by blast
qed

text \<open>
  The claim at chain length 2, on Alabama, Mississippi and its reverse, and at chain
  length 1.
\<close>

theorem every_simple_path_is_emitted_witness:
  "(\<exists>cs. neighbor_chains states_and_neighbors 2 empty_heap = Inr cs \<and>
      [alabama, mississippi] \<in> set cs \<and> [mississippi, alabama] \<in> set cs) \<and>
   [mississippi, alabama] \<noteq> [alabama, mississippi] \<and>
   neighbor_chains states_and_neighbors 1 empty_heap
     = Inr (map (\<lambda>s. [s]) (map snd states_and_neighbors))"
proof -
  from every_simple_path_is_emitted[of 2 empty_heap] obtain cs where
    cs: "neighbor_chains states_and_neighbors 2 empty_heap = Inr cs"
    and both: "\<forall>p. is_traversal states_and_neighbors 2 p \<and>
        is_traversal states_and_neighbors 2 (rev p) \<and> (2::int) \<le> 2 \<longrightarrow>
        p \<in> set cs \<and> rev p \<in> set cs \<and> rev p \<noteq> p"
    by auto
  from both[rule_format, of "[alabama, mississippi]"] alabama_mississippi mississippi_alabama
  have "[alabama, mississippi] \<in> set cs" "[mississippi, alabama] \<in> set cs"
    "[mississippi, alabama] \<noteq> [alabama, mississippi]"
    by simp_all
  moreover from every_simple_path_is_emitted[of 1 empty_heap]
  have "neighbor_chains states_and_neighbors 1 empty_heap
     = Inr (map (\<lambda>s. [s]) (map snd states_and_neighbors))"
    by auto
  ultimately show ?thesis using cs by blast
qed

section \<open>The traversal is the reference enumeration, in any order of the branches\<close>

lemma reorder_values:
  "snd ` set (reorder_neighbors f g) = (\<lambda>s. s\<lparr>neighbors := f (neighbors s)\<rparr>) ` snd ` set g"
  by (force simp: reorder_neighbors_def image_iff)

lemma reorder_keys: "map fst (reorder_neighbors f g) = map fst g"
  by (simp add: reorder_neighbors_def case_prod_beta)

lemma graph_ok_reorder:
  assumes ok: "graph_ok g" and f: "\<And>xs. set (f xs) = set xs"
  shows "graph_ok (reorder_neighbors f g)"
proof -
  have keys: "fst ` set (reorder_neighbors f g) = fst ` set g"
    using reorder_keys[of f g] by (metis set_map)
  have mem: "\<exists>s. (k, s) \<in> set g \<and> s' = s\<lparr>neighbors := f (neighbors s)\<rparr>"
    if "(k, s') \<in> set (reorder_neighbors f g)" for k s'
    using that by (auto simp: reorder_neighbors_def)
  from ok have "distinct (map fst (reorder_neighbors f g))"
    by (simp add: graph_ok_def reorder_keys)
  moreover have "keys_are_names (reorder_neighbors f g)"
    unfolding keys_are_names_def list_all_iff
  proof (intro ballI, clarify)
    fix k s' assume "(k, s') \<in> set (reorder_neighbors f g)"
    from mem[OF this] obtain s where "(k, s) \<in> set g" "s' = s\<lparr>neighbors := f (neighbors s)\<rparr>"
      by blast
    with ok show "name s' = k"
      by (auto simp: graph_ok_def keys_are_names_def list_all_iff)
  qed
  moreover have "closed_graph (reorder_neighbors f g)"
    unfolding closed_graph_def list_all_iff keys
  proof (intro ballI, clarify)
    fix k s' nm assume "(k, s') \<in> set (reorder_neighbors f g)" and nm: "nm \<in> set (neighbors s')"
    from mem[OF this(1)] obtain s where s: "(k, s) \<in> set g" "s' = s\<lparr>neighbors := f (neighbors s)\<rparr>"
      by blast
    with nm have "nm \<in> set (neighbors s)"
      by (simp add: f)
    with ok s(1) show "nm \<in> fst ` set g"
      by (fastforce simp: graph_ok_def closed_graph_def list_all_iff)
  qed
  ultimately show ?thesis
    by (simp add: graph_ok_def)
qed


lemma linked_reorder:
  assumes f: "\<And>xs. set (f xs) = set xs"
  shows "linked (map (\<lambda>s. s\<lparr>neighbors := f (neighbors s)\<rparr>) p) = linked p"
  by (induction p rule: linked.induct) (simp_all add: f)

lemma subset_image_map:
  "set ys \<subseteq> upd ` A \<Longrightarrow> \<exists>xs. ys = map upd xs \<and> set xs \<subseteq> A"
proof (induction ys)
  case Nil
  show ?case by simp
next
  case (Cons y ys)
  then obtain x xs where "y = upd x" "x \<in> A" "ys = map upd xs" "set xs \<subseteq> A"
    by auto
  then show ?case
    by (intro exI[of _ "x # xs"]) simp
qed


lemma simple_paths_reorder:
  assumes f: "\<And>xs. set (f xs) = set xs"
  shows "map name ` simple_paths (reorder_neighbors f g) n = map name ` simple_paths g n"
proof -
  define upd where "upd = (\<lambda>s::State. s\<lparr>neighbors := f (neighbors s)\<rparr>)"
  have names: "map name (map upd p) = map name p" for p
    by (simp add: upd_def)
  have vals: "snd ` set (reorder_neighbors f g) = upd ` snd ` set g"
    by (simp add: reorder_values upd_def)
  have link: "linked (map upd p) = linked p" for p
    unfolding upd_def by (rule linked_reorder[OF f])
  have fwd: "map upd p \<in> simple_paths (reorder_neighbors f g) n" if "p \<in> simple_paths g n" for p
  proof -
    from that have "set (map upd p) \<subseteq> upd ` snd ` set g"
      by (auto simp: simple_paths_def)
    with that show ?thesis
      by (simp add: simple_paths_def vals link names del: map_map set_map)
  qed
  have bwd: "\<exists>p. p' = map upd p \<and> p \<in> simple_paths g n"
    if p': "p' \<in> simple_paths (reorder_neighbors f g) n" for p'
  proof -
    from p' have "set p' \<subseteq> upd ` snd ` set g"
      by (simp add: simple_paths_def vals)
    from subset_image_map[OF this] obtain p where p: "p' = map upd p" "set p \<subseteq> snd ` set g"
      by blast
    from p' have "int (length p') = n" "distinct (map name p')" "linked p'"
      by (simp_all add: simple_paths_def)
    then have "int (length p) = n" "distinct (map name p)" "linked p"
      unfolding p(1) names link by simp_all
    with p have "p \<in> simple_paths g n"
      by (simp add: simple_paths_def)
    with p(1) show ?thesis
      by blast
  qed
  show ?thesis
  proof (intro set_eqI iffI)
    fix ns assume "ns \<in> map name ` simple_paths (reorder_neighbors f g) n"
    then obtain p' where p': "p' \<in> simple_paths (reorder_neighbors f g) n" "ns = map name p'"
      by blast
    from bwd[OF p'(1)] obtain p where "p' = map upd p" "p \<in> simple_paths g n"
      by blast
    with p'(2) names[of p] show "ns \<in> map name ` simple_paths g n"
      by (metis imageI)
  next
    fix ns assume "ns \<in> map name ` simple_paths g n"
    then obtain p where p: "p \<in> simple_paths g n" "ns = map name p"
      by blast
    from fwd[OF p(1)] names[of p] p(2)
    show "ns \<in> map name ` simple_paths (reorder_neighbors f g) n"
      by (metis imageI)
  qed
qed


lemma neighbor_chains_reorder:
  assumes ok: "graph_ok g" and f: "\<And>xs. set (f xs) = set xs"
  shows "\<exists>cs cs'. neighbor_chains g n h = Inr cs \<and>
           neighbor_chains (reorder_neighbors f g) n h' = Inr cs' \<and>
           set (map (map name) cs') = set (map (map name) cs)"
proof -
  from enumerate_paths_ok[OF ok, of n] obtain cs where
    cs: "enumerate_paths g n = Inr cs" "set cs = (if 1 \<le> n then simple_paths g n else {})"
    by blast
  from enumerate_paths_ok[OF graph_ok_reorder[OF ok f], of n] obtain cs' where
    cs': "enumerate_paths (reorder_neighbors f g) n = Inr cs'"
      "set cs' = (if 1 \<le> n then simple_paths (reorder_neighbors f g) n else {})"
    by blast
  from cs(2) cs'(2) simple_paths_reorder[OF f, of g n]
  have "set (map (map name) cs') = set (map (map name) cs)"
    by simp
  with cs(1) cs'(1) show ?thesis
    by (simp add: neighbor_chains_refines)
qed

text \<open>
  Claim C3. \<open>traverse_neighbor_chain\<close>, which mutates the set and the chain it is given
  and hands copies of both to each recursive call, does what the pure reference
  enumeration does, in which a call's visited states are the states of its own path.
  First, a call that starts with a set holding the states of its chain appends to
  \<open>chains\<close> exactly the paths the reference enumerates from that chain (or raises the
  error the reference returns), and it changes no set and no list of the store that
  existed before the call apart from its own two: the visited sets of the caller and of
  the sibling branches stay as they were. Second, the list \<open>build_neighbor_chains\<close>
  returns is the list of the reference, for every table, chain length and store. Third,
  on a well-formed table the set of chains returned (the chains as sequences of names)
  stays the same when the neighbour lists, which fix the order of the sibling branches,
  are permuted.
\<close>

theorem traversal_refines_reference:
  "(store_ready h seen co chain \<longrightarrow>
      (case traverse_neighbor_chain g state seen co chain d h of
         Inl e \<Rightarrow> enumerate_from g (list_objs h chain) state d = Inl e
       | Inr h' \<Rightarrow>
           \<exists>found. enumerate_from g (list_objs h chain) state d = Inr found \<and>
             read_chains h' co = read_chains h co @ found \<and>
             (\<forall>r. r < next_ref h \<and> r \<noteq> seen \<longrightarrow> set_objs h' r = set_objs h r) \<and>
             (\<forall>r. r < next_ref h \<and> r \<noteq> chain \<longrightarrow> list_objs h' r = list_objs h r))) \<and>
   neighbor_chains g n h0 = enumerate_paths g n \<and>
   (graph_ok g \<and> (\<forall>xs. mset (f xs) = mset xs) \<longrightarrow>
      (\<exists>cs cs'. neighbor_chains g n h0 = Inr cs \<and>
         neighbor_chains (reorder_neighbors f g) n h0 = Inr cs' \<and>
         set (map (map name) cs') = set (map (map name) cs)))"
proof (intro conjI impI)
  assume "store_ready h seen co chain"
  from traverse_refines(1)[OF this, of g state d]
  show "case traverse_neighbor_chain g state seen co chain d h of
         Inl e \<Rightarrow> enumerate_from g (list_objs h chain) state d = Inl e
       | Inr h' \<Rightarrow>
           \<exists>found. enumerate_from g (list_objs h chain) state d = Inr found \<and>
             read_chains h' co = read_chains h co @ found \<and>
             (\<forall>r. r < next_ref h \<and> r \<noteq> seen \<longrightarrow> set_objs h' r = set_objs h r) \<and>
             (\<forall>r. r < next_ref h \<and> r \<noteq> chain \<longrightarrow> list_objs h' r = list_objs h r)"
    by (cases rule: refines_cases) (simp_all add: traverse_post_def)
next
  show "neighbor_chains g n h0 = enumerate_paths g n"
    by (rule neighbor_chains_refines)
next
  assume a: "graph_ok g \<and> (\<forall>xs. mset (f xs) = mset xs)"
  then have "set (f xs) = set xs" for xs
    by (metis set_mset_mset)
  with a show "\<exists>cs cs'. neighbor_chains g n h0 = Inr cs \<and>
         neighbor_chains (reorder_neighbors f g) n h0 = Inr cs' \<and>
         set (map (map name) cs') = set (map (map name) cs)"
    by (intro neighbor_chains_reorder) simp_all
qed

lemma graph_ok_line: "graph_ok line_graph"
  by (simp add: graph_ok_def keys_are_names_def closed_graph_def line_graph_def State_init_def)

lemma store_ready_first_call: "store_ready first_call_heap 2 0 1"
  by (simp add: store_ready_def first_call_heap_def new_set_def new_list_def new_reflist_def
      empty_heap_def)

lemma line_graph_from_a: "enumerate_from line_graph [] node_a 1 = Inr [[node_a, node_b]]"
  by (simp add: enumerate_from.simps line_graph_def node_a_def node_b_def State_init_def)

lemma line_graph_paths:
  "enumerate_paths line_graph 2
     = Inr [[node_a, node_b], [node_b, node_a], [node_b, node_c], [node_c, node_b]]"
  by (simp add: enumerate_paths_def enumerate_from.simps line_graph_def node_a_def node_b_def
      node_c_def State_init_def)

text \<open>
  The runs of the source on the line A - B - C with chain lengths 2 and 3, evaluated in
  the store step by step.
\<close>

lemma line_graph_run:
  "neighbor_chains line_graph 2 empty_heap
     = Inr [[node_a, node_b], [node_b, node_a], [node_b, node_c], [node_c, node_b]]"
  by (simp add: neighbor_chains_def build_neighbor_chains_def traverse_neighbor_chain.simps
      line_graph_def node_a_def node_b_def node_c_def State_init_def get_neighbors_def
      empty_heap_def new_reflist_def new_list_def new_set_def set_copy_def list_copy_def
      set_add_def list_append_def reflist_append_def read_chains_def
      pyset_add_def pyset_contains_def state_eq_def)

lemma line_graph_run_three:
  "neighbor_chains line_graph 3 empty_heap
     = Inr [[node_a, node_b, node_c], [node_c, node_b, node_a]]"
  by (simp add: neighbor_chains_def build_neighbor_chains_def traverse_neighbor_chain.simps
      line_graph_def node_a_def node_b_def node_c_def State_init_def get_neighbors_def
      empty_heap_def new_reflist_def new_list_def new_set_def set_copy_def list_copy_def
      set_add_def list_append_def reflist_append_def read_chains_def
      pyset_add_def pyset_contains_def state_eq_def)

text \<open>
  The claim on the line A - B - C: the first call of a run with chain length 2, from A,
  appends the chain A, B; the run returns the four chains of two states; and with
  every neighbour list reversed the same set of chains comes out.
\<close>

theorem traversal_refines_reference_witness:
  "store_ready first_call_heap 2 0 1 \<and>
   (\<exists>h'. traverse_neighbor_chain line_graph node_a 2 0 1 1 first_call_heap = Inr h' \<and>
      read_chains h' 0 = [[node_a, node_b]] \<and> set_objs h' 0 = set_objs first_call_heap 0) \<and>
   neighbor_chains line_graph 2 empty_heap
     = Inr [[node_a, node_b], [node_b, node_a], [node_b, node_c], [node_c, node_b]] \<and>
   graph_ok line_graph \<and> (\<forall>xs :: string list. mset (rev xs) = mset xs) \<and>
   (\<exists>cs'. neighbor_chains (reorder_neighbors rev line_graph) 2 empty_heap = Inr cs' \<and>
      set (map (map name) cs') = {[''A'', ''B''], [''B'', ''A''], [''B'', ''C''], [''C'', ''B'']})"
proof -
  note inst = traversal_refines_reference[of first_call_heap 2 0 1 line_graph node_a 1 2
      empty_heap rev]
  have empty: "list_objs first_call_heap (Suc 0) = []" "read_chains first_call_heap 0 = []"
    "next_ref first_call_heap = 3"
    by (simp_all add: first_call_heap_def new_set_def new_list_def new_reflist_def
        empty_heap_def read_chains_def)
  from inst[THEN conjunct1] store_ready_first_call
  have "case traverse_neighbor_chain line_graph node_a 2 0 1 1 first_call_heap of
         Inl e \<Rightarrow> enumerate_from line_graph (list_objs first_call_heap 1) node_a 1 = Inl e
       | Inr h' \<Rightarrow>
           \<exists>found. enumerate_from line_graph (list_objs first_call_heap 1) node_a 1 = Inr found \<and>
             read_chains h' 0 = read_chains first_call_heap 0 @ found \<and>
             (\<forall>r. r < next_ref first_call_heap \<and> r \<noteq> 2 \<longrightarrow>
                set_objs h' r = set_objs first_call_heap r) \<and>
             (\<forall>r. r < next_ref first_call_heap \<and> r \<noteq> 1 \<longrightarrow>
                list_objs h' r = list_objs first_call_heap r)"
    by (rule mp)
  then have first:
    "\<exists>h'. traverse_neighbor_chain line_graph node_a 2 0 1 1 first_call_heap = Inr h' \<and>
      read_chains h' 0 = [[node_a, node_b]] \<and> set_objs h' 0 = set_objs first_call_heap 0"
    by (cases "traverse_neighbor_chain line_graph node_a 2 0 1 1 first_call_heap")
       (auto simp: empty line_graph_from_a)
  from inst[THEN conjunct2, THEN conjunct1]
  have run: "neighbor_chains line_graph 2 empty_heap
     = Inr [[node_a, node_b], [node_b, node_a], [node_b, node_c], [node_c, node_b]]"
    by (simp add: line_graph_paths)
  have perm: "\<forall>xs :: string list. mset (rev xs) = mset xs"
    by simp
  from inst[THEN conjunct2, THEN conjunct2] graph_ok_line perm run
  have "\<exists>cs'. neighbor_chains (reorder_neighbors rev line_graph) 2 empty_heap = Inr cs' \<and>
      set (map (map name) cs') = {[''A'', ''B''], [''B'', ''A''], [''B'', ''C''], [''C'', ''B'']}"
    by (auto simp: node_a_def node_b_def node_c_def State_init_def)
  with store_ready_first_call first run graph_ok_line perm show ?thesis
    by blast
qed

section \<open>The word filter and the index\<close>

lemma match_class_repeat_Some:
  "match_class_repeat k w = Some rest \<longleftrightarrow>
     k \<le> length w \<and> (\<forall>c\<in>set (take k w). is_upper_letter c) \<and> rest = drop k w"
  by (induction k w rule: match_class_repeat.induct) auto

lemma pattern_match_exact:
  assumes len: "length w = k"
  shows "pattern_match k w \<longleftrightarrow> (\<forall>c\<in>set w. is_upper_letter c)"
proof (cases "\<forall>c\<in>set w. is_upper_letter c")
  case True
  with len have "match_class_repeat k w = Some []"
    by (simp add: match_class_repeat_Some)
  with True show ?thesis by (simp add: pattern_match_def)
next
  case False
  with len have "match_class_repeat k w = None"
    by (cases "match_class_repeat k w") (auto simp: match_class_repeat_Some)
  with False show ?thesis by (simp add: pattern_match_def)
qed

lemma read_words_fold:
  "read_words (chain_length * 2) file_lines anagrams
     = foldl index_word anagrams (admitted_words chain_length file_lines)"
proof (induction file_lines arbitrary: anagrams)
  case Nil
  show ?case by (simp add: admitted_words_def)
next
  case (Cons line rest)
  let ?w = "upper (strip line)"
  show ?case
  proof (cases "int (length ?w) = chain_length * 2")
    case False
    with Cons show ?thesis by (simp add: admitted_words_def Let_def)
  next
    case True
    then have "length ?w = nat (chain_length * 2)" by simp
    from pattern_match_exact[OF this] True Cons show ?thesis
      by (simp add: admitted_words_def Let_def)
  qed
qed

lemma index_word_changes: "index_word anagrams word \<noteq> anagrams"
proof
  assume "index_word anagrams word = anagrams"
  then have "index_word anagrams word (generate_key word) = anagrams (generate_key word)"
    by simp
  then show False
    by (cases "anagrams (generate_key word)") (simp_all add: index_word_def)
qed

lemma index_word_lookup:
  "index_word anagrams word key =
     (if generate_key word = key
      then Some ((case anagrams key of None \<Rightarrow> [] | Some ws \<Rightarrow> ws) @ [word])
      else anagrams key)"
  by (cases "anagrams (generate_key word)") (auto simp: index_word_def)

lemma foldl_index_word_lookup:
  "(case foldl index_word anagrams ws key of None \<Rightarrow> [] | Some found \<Rightarrow> found)
     = (case anagrams key of None \<Rightarrow> [] | Some old \<Rightarrow> old)
       @ filter (\<lambda>w. generate_key w = key) ws"
  by (induction ws arbitrary: anagrams) (simp_all add: index_word_lookup)

text \<open>
  \<open>generate_key\<close> sorts before it upper-cases, which is not the same as upper-casing
  first; on upper-case words, the only ones the index holds, the key is the sorted word.
\<close>

lemma generate_key_sorts_first:
  "generate_key ''Ba'' = ''BA''" "sort (upper ''Ba'') = ''AB''"
  by code_simp+

lemma generate_key_upper:
  assumes "\<forall>c\<in>set s. is_upper_letter c"
  shows "generate_key s = sort s"
proof -
  have "upper_char c = c" if "is_upper_letter c" for c
    using that by (auto simp: upper_char_def is_upper_letter_def less_eq_char_def)
  with assms have "map upper_char (sort s) = sort s"
    by (auto intro!: map_idI)
  then show ?thesis
    by (simp add: generate_key_def upper_def)
qed

text \<open>
  Claim C5. A line of the word file contributes a word to the anagram index if and only
  if its stripped, upper-cased form has length exactly \<open>2 * chain_length\<close> and consists
  of the letters A to Z only: the index the loop builds is the index with exactly these
  words put in, in file order, and a single line changes the index if and only if it is
  of that form. Every other line is skipped; the loop has no error to raise.
\<close>

theorem word_filter:
  "read_words (chain_length * 2) file_lines anagrams
     = foldl index_word anagrams (admitted_words chain_length file_lines) \<and>
   (read_words (chain_length * 2) [line] anagrams \<noteq> anagrams \<longleftrightarrow>
      int (length (upper (strip line))) = chain_length * 2 \<and>
      (\<forall>c\<in>set (upper (strip line)). is_upper_letter c))"
proof
  show "read_words (chain_length * 2) file_lines anagrams
     = foldl index_word anagrams (admitted_words chain_length file_lines)"
    by (rule read_words_fold)
next
  show "read_words (chain_length * 2) [line] anagrams \<noteq> anagrams \<longleftrightarrow>
      int (length (upper (strip line))) = chain_length * 2 \<and>
      (\<forall>c\<in>set (upper (strip line)). is_upper_letter c)"
    unfolding read_words_fold by (simp add: admitted_words_def index_word_changes)
qed

lemma three_lines_admitted: "admitted_words 2 three_lines = [''MINI'']"
  by code_simp

lemma three_lines_forms:
  "int (length (upper (strip ''mini\<newline>''))) = 2 * 2 \<and>
     (\<forall>c\<in>set (upper (strip ''mini\<newline>'')). is_upper_letter c)"
  "\<not> (int (length (upper (strip '' dog\<newline>''))) = 2 * 2 \<and>
     (\<forall>c\<in>set (upper (strip '' dog\<newline>'')). is_upper_letter c))"
  "\<not> (int (length (upper (strip ''ab-d\<newline>''))) = 2 * 2 \<and>
     (\<forall>c\<in>set (upper (strip ''ab-d\<newline>'')). is_upper_letter c))"
  by code_simp+

text \<open>
  The claim at chain length 2 on three lines: \<open>mini\<close> is put in, as MINI; \<open>dog\<close>, of
  the wrong length, and \<open>ab-d\<close>, with a character that is no letter, are skipped.
\<close>

theorem word_filter_witness:
  "read_words (2 * 2) three_lines Map.empty = index_word Map.empty ''MINI'' \<and>
   read_words (2 * 2) [''mini\<newline>''] Map.empty \<noteq> Map.empty \<and>
   read_words (2 * 2) ['' dog\<newline>''] Map.empty = Map.empty \<and>
   read_words (2 * 2) [''ab-d\<newline>''] Map.empty = Map.empty"
proof -
  from word_filter[of 2 three_lines Map.empty, THEN conjunct1]
  have "read_words (2 * 2) three_lines Map.empty = index_word Map.empty ''MINI''"
    by (simp only: three_lines_admitted foldl_Cons foldl_Nil)
  moreover
  from word_filter[of 2 three_lines Map.empty "''mini\<newline>''", THEN conjunct2]
    three_lines_forms(1)
  have "read_words (2 * 2) [''mini\<newline>''] Map.empty \<noteq> Map.empty"
    by blast
  moreover
  from word_filter[of 2 three_lines Map.empty "'' dog\<newline>''", THEN conjunct2]
    three_lines_forms(2)
  have "read_words (2 * 2) ['' dog\<newline>''] Map.empty = Map.empty"
    by blast
  moreover
  from word_filter[of 2 three_lines Map.empty "''ab-d\<newline>''", THEN conjunct2]
    three_lines_forms(3)
  have "read_words (2 * 2) [''ab-d\<newline>''] Map.empty = Map.empty"
    by blast
  ultimately show ?thesis
    by blast
qed

lemma upper_of_upper:
  assumes "\<forall>c\<in>set s. is_upper_letter c"
  shows "upper s = s"
proof -
  have "upper_char c = c" if "is_upper_letter c" for c
    using that by (auto simp: upper_char_def is_upper_letter_def less_eq_char_def)
  with assms show ?thesis
    by (auto simp: upper_def intro!: map_idI)
qed

lemma admitted_words_upper:
  "word \<in> set (admitted_words chain_length file_lines) \<Longrightarrow> \<forall>c\<in>set word. is_upper_letter c"
  by (simp add: admitted_words_def)

text \<open>
  Claim C6. Building the index and looking a word up round-trip: for every word put
  into the index, the key of any permutation of its letters (\<open>generate_key\<close> sorts the
  characters, then upper-cases them) is in the index, and the list found there holds the
  word; what is found under the key of a query string (nothing, if the key is not in
  the index) is exactly the list of the words put in that have the key of the query, in
  file order; and for a query of upper-case letters, as the chain strings are, these are
  the words whose upper-cased letters, sorted, are those of the query.
\<close>

theorem index_lookup_roundtrip:
  "(\<forall>word\<in>set (admitted_words chain_length file_lines). \<forall>query. mset query = mset word \<longrightarrow>
      (\<exists>ws. read_words (chain_length * 2) file_lines Map.empty (generate_key query) = Some ws \<and>
         word \<in> set ws)) \<and>
   (case read_words (chain_length * 2) file_lines Map.empty (generate_key query) of
      None \<Rightarrow> []
    | Some ws \<Rightarrow> ws)
     = filter (\<lambda>word. generate_key word = generate_key query)
         (admitted_words chain_length file_lines) \<and>
   ((\<forall>c\<in>set query. is_upper_letter c) \<longrightarrow>
      (case read_words (chain_length * 2) file_lines Map.empty (generate_key query) of
         None \<Rightarrow> []
       | Some ws \<Rightarrow> ws)
        = filter (\<lambda>word. sort (upper word) = sort (upper query))
            (admitted_words chain_length file_lines))"
proof (intro conjI ballI allI impI)
  fix word q :: string
  assume word: "word \<in> set (admitted_words chain_length file_lines)"
    and perm: "mset q = mset word"
  have "sort word = sort q"
    by (rule properties_for_sort) (simp_all add: perm)
  then have key: "generate_key word = generate_key q"
    by (simp add: generate_key_def)
  let ?found = "read_words (chain_length * 2) file_lines Map.empty (generate_key q)"
  have "(case ?found of None \<Rightarrow> [] | Some ws \<Rightarrow> ws)
      = filter (\<lambda>w. generate_key w = generate_key q) (admitted_words chain_length file_lines)"
    by (simp add: read_words_fold foldl_index_word_lookup)
  with word key have "word \<in> set (case ?found of None \<Rightarrow> [] | Some ws \<Rightarrow> ws)"
    by simp
  then show "\<exists>ws. ?found = Some ws \<and> word \<in> set ws"
    by (cases ?found) simp_all
next
  show "(case read_words (chain_length * 2) file_lines Map.empty (generate_key query) of
      None \<Rightarrow> []
    | Some ws \<Rightarrow> ws)
     = filter (\<lambda>word. generate_key word = generate_key query)
         (admitted_words chain_length file_lines)"
    by (simp add: read_words_fold foldl_index_word_lookup)
next
  assume up: "\<forall>c\<in>set query. is_upper_letter c"
  have "(generate_key word = generate_key query) = (sort (upper word) = sort (upper query))"
    if "word \<in> set (admitted_words chain_length file_lines)" for word
    using admitted_words_upper[OF that] up
    by (simp add: generate_key_upper upper_of_upper)
  then have "filter (\<lambda>word. generate_key word = generate_key query)
         (admitted_words chain_length file_lines)
      = filter (\<lambda>word. sort (upper word) = sort (upper query))
         (admitted_words chain_length file_lines)"
    by (intro filter_cong) simp_all
  then show "(case read_words (chain_length * 2) file_lines Map.empty (generate_key query) of
         None \<Rightarrow> []
       | Some ws \<Rightarrow> ws)
        = filter (\<lambda>word. sort (upper word) = sort (upper query))
            (admitted_words chain_length file_lines)"
    by (simp add: read_words_fold foldl_index_word_lookup)
qed

lemma nimi_is_mini: "mset ''NIMI'' = mset ''MINI''"
  by (simp add: add_mset_commute)

lemma mini_keys:
  "filter (\<lambda>word. generate_key word = generate_key ''NIMI'') [''MINI''] = [''MINI'']"
  by code_simp

lemma nimi_upper: "\<forall>c\<in>set ''NIMI''. is_upper_letter c"
  by code_simp

lemma mini_sorted:
  "filter (\<lambda>word. sort (upper word) = sort (upper ''NIMI'')) [''MINI''] = [''MINI'']"
  by code_simp

text \<open>The claim on the three lines, with the query NIMI.\<close>

theorem index_lookup_roundtrip_witness:
  "''MINI'' \<in> set (admitted_words 2 three_lines) \<and> mset ''NIMI'' = mset ''MINI'' \<and>
   read_words (2 * 2) three_lines Map.empty (generate_key ''NIMI'') = Some [''MINI''] \<and>
   list_all is_upper_letter ''NIMI'' \<and>
   filter (\<lambda>word. sort (upper word) = sort (upper ''NIMI'')) (admitted_words 2 three_lines)
     = [''MINI'']"
proof -
  note inst = index_lookup_roundtrip[of 2 three_lines "''NIMI''"]
  have mem: "''MINI'' \<in> set (admitted_words 2 three_lines)"
    by (simp add: three_lines_admitted)
  from inst[THEN conjunct1, rule_format, OF mem nimi_is_mini] obtain ws where
    ws: "read_words (2 * 2) three_lines Map.empty (generate_key ''NIMI'') = Some ws"
    by blast
  from inst[THEN conjunct2, THEN conjunct1]
  have "(case read_words (2 * 2) three_lines Map.empty (generate_key ''NIMI'') of
           None \<Rightarrow> [] | Some ws \<Rightarrow> ws) = [''MINI'']"
    by (simp only: three_lines_admitted mini_keys)
  with ws have found: "ws = [''MINI'']"
    by simp
  from inst[THEN conjunct2, THEN conjunct2, THEN mp, OF nimi_upper] ws found
  have "filter (\<lambda>word. sort (upper word) = sort (upper ''NIMI''))
      (admitted_words 2 three_lines) = [''MINI'']"
    by simp
  with ws found mem nimi_is_mini nimi_upper show ?thesis
    by (simp add: list_all_iff)
qed

section \<open>The words found\<close>

lemma pyset_add_eq: "pyset_add (=) S x = (if x \<in> set S then S else S @ [x])"
  by (auto simp: pyset_add_def pyset_contains_def)

lemma foldl_pyset_add:
  "distinct S \<Longrightarrow>
   distinct (foldl (pyset_add (=)) S ws) \<and> set (foldl (pyset_add (=)) S ws) = set S \<union> set ws"
  by (induction ws arbitrary: S) (auto simp: pyset_add_eq)

lemma count_list_distinct: "distinct xs \<Longrightarrow> count_list xs x = (if x \<in> set xs then 1 else 0)"
  by (induction xs) auto

lemma for_chains_result:
  "distinct found \<Longrightarrow> for_chains anagrams chain_list (printed, found) = (printed', found') \<Longrightarrow>
   distinct found' \<and>
   set found' = set found \<union>
     {word. \<exists>chain\<in>set chain_list. \<exists>ws. anagrams (chain_key chain) = Some ws \<and> word \<in> set ws} \<and>
   printed' = printed @
     concat (map (\<lambda>chain. case anagrams (chain_key chain) of
                            None \<Rightarrow> []
                          | Some ws \<Rightarrow> [chain_line (map get_abbr chain) ws]) chain_list)"
proof (induction chain_list arbitrary: printed found)
  case Nil
  then show ?case by simp
next
  case (Cons chain rest)
  show ?case
  proof (cases "anagrams (chain_key chain)")
    case None
    with Cons.prems(2) have "for_chains anagrams rest (printed, found) = (printed', found')"
      by (simp add: chain_key_def)
    from Cons.IH[OF Cons.prems(1) this] None show ?thesis
      by auto
  next
    case (Some ws)
    let ?found = "foldl (pyset_add (=)) found ws"
    from Some Cons.prems(2)
    have run: "for_chains anagrams rest (printed @ [chain_line (map get_abbr chain) ws], ?found)
        = (printed', found')"
      by (simp add: chain_key_def)
    from foldl_pyset_add[OF Cons.prems(1), of ws]
    have d: "distinct ?found" and s: "set ?found = set found \<union> set ws"
      by simp_all
    from Cons.IH[OF d run] Some s show ?thesis
      by auto
  qed
qed

text \<open>
  Claim C8. Every dictionary word that some chain matches is in the final set
  \<open>total_found_words\<close> exactly once, also when several chains have the same key and match
  the same word, and no other word is in it; and each chain whose key is in the index
  has a line of its own in the output, with all the words found for it.
\<close>

theorem each_found_word_once:
  "for_chains anagrams chain_list ([], []) = (printed, total_found_words) \<Longrightarrow>
   (\<forall>word. count_list total_found_words word =
      (if \<exists>chain\<in>set chain_list. \<exists>ws. anagrams (chain_key chain) = Some ws \<and> word \<in> set ws
       then 1 else 0)) \<and>
   printed =
     concat (map (\<lambda>chain. case anagrams (chain_key chain) of
                            None \<Rightarrow> []
                          | Some ws \<Rightarrow> [chain_line (map get_abbr chain) ws]) chain_list)"
proof -
  assume "for_chains anagrams chain_list ([], []) = (printed, total_found_words)"
  from for_chains_result[OF _ this]
  have d: "distinct total_found_words"
    and s: "set total_found_words =
      {word. \<exists>chain\<in>set chain_list. \<exists>ws. anagrams (chain_key chain) = Some ws \<and> word \<in> set ws}"
    and p: "printed =
     concat (map (\<lambda>chain. case anagrams (chain_key chain) of
                            None \<Rightarrow> []
                          | Some ws \<Rightarrow> [chain_line (map get_abbr chain) ws]) chain_list)"
    by simp_all
  have "count_list total_found_words word =
      (if \<exists>chain\<in>set chain_list. \<exists>ws. anagrams (chain_key chain) = Some ws \<and> word \<in> set ws
       then 1 else 0)" for word
    using count_list_distinct[OF d, of word] s by auto
  with p show ?thesis
    by blast
qed

lemma mini_chains_run:
  "for_chains (read_words (2 * 2) three_lines Map.empty)
     [[indiana, michigan], [alabama, mississippi], [michigan, indiana]] ([], [])
   = ([''IN, MI : MINI'', ''MI, IN : MINI''], [''MINI''])"
  by code_simp

text \<open>
  The whole run on the static table, with chain length 2 and the word file of the three
  lines, evaluated: of the chains of two states, Indiana, Michigan and Michigan, Indiana
  are the ones with a word.
\<close>

lemma whole_run_mini:
  "main [''state-chain-words.py'', ''2''] (\<lambda>file_name. Some three_lines) empty_heap
     = Inr ([''IN, MI : MINI'', ''MI, IN : MINI'', [], ''All words:'', ''    MINI''], [''MINI''])"
  unfolding main_def neighbor_chains_refines
  by code_simp

text \<open>
  The claim on three chains and the index of the three lines: Indiana, Michigan and
  Michigan, Indiana both match MINI and each has its line; MINI is in the set once. The
  whole run gives the same.
\<close>

theorem each_found_word_once_witness:
  "for_chains (read_words (2 * 2) three_lines Map.empty)
     [[indiana, michigan], [alabama, mississippi], [michigan, indiana]] ([], [])
   = ([''IN, MI : MINI'', ''MI, IN : MINI''], [''MINI'']) \<and>
   count_list [''MINI''] ''MINI'' = 1 \<and>
   (\<exists>ws. read_words (2 * 2) three_lines Map.empty (chain_key [indiana, michigan]) = Some ws \<and>
      ''MINI'' \<in> set ws) \<and>
   (\<exists>ws. read_words (2 * 2) three_lines Map.empty (chain_key [michigan, indiana]) = Some ws \<and>
      ''MINI'' \<in> set ws) \<and>
   main [''state-chain-words.py'', ''2''] (\<lambda>file_name. Some three_lines) empty_heap
     = Inr ([''IN, MI : MINI'', ''MI, IN : MINI'', [], ''All words:'', ''    MINI''], [''MINI''])"
proof -
  from each_found_word_once[OF mini_chains_run]
  have "count_list [''MINI''] ''MINI'' =
      (if \<exists>chain\<in>set [[indiana, michigan], [alabama, mississippi], [michigan, indiana]].
            \<exists>ws. read_words (2 * 2) three_lines Map.empty (chain_key chain) = Some ws \<and>
              ''MINI'' \<in> set ws
       then 1 else 0)"
    by blast
  moreover have "read_words (2 * 2) three_lines Map.empty (chain_key [indiana, michigan])
      = Some [''MINI'']"
    "read_words (2 * 2) three_lines Map.empty (chain_key [michigan, indiana])
      = Some [''MINI'']"
    by code_simp+
  ultimately show ?thesis
    using mini_chains_run whole_run_mini by simp
qed


section \<open>The arguments of the main routine\<close>

lemma py_int_error: "py_int s = Inl e \<Longrightarrow> e = ValueError"
  by (auto simp: py_int_def split: list.splits if_splits option.splits)

lemma main_parse_error:
  "1 < length argv \<Longrightarrow> py_int (argv ! 1) = Inl e \<Longrightarrow> main argv files h = Inl ValueError"
  using py_int_error[of "argv ! 1" e] by (simp add: main_def)

lemma main_not_positive:
  assumes "1 < length argv" and "py_int (argv ! 1) = Inr n" and "n \<le> 0"
  shows "main argv files h =
     (case files (if 2 < length argv then argv ! 2 else ''/usr/share/dict/words'') of
        None \<Rightarrow> Inl (FileNotFoundError
                  (if 2 < length argv then argv ! 2 else ''/usr/share/dict/words''))
      | Some file_lines \<Rightarrow> Inr ([''No words found.''], []))"
proof -
  from neighbor_chains_static[of n h] assms(3)
  have "neighbor_chains states_and_neighbors n h = Inr []"
    by auto
  with assms show ?thesis
    by (simp add: main_def summary_lines_def split: option.splits)
qed

lemma py_int_examples: "py_int ''0'' = Inr 0" "py_int ''-3'' = Inr (- 3)"
  "py_int ''four'' = Inl ValueError"
  by code_simp+

text \<open>
  Claim C7 says that a chain-length argument that is no integer, or not positive, is
  reported at once as an \<open>InvalidArgument\<close> error. The main routine has no check of its
  arguments: with the argument \<open>0\<close> it runs the enumeration, finds no chain and ends
  normally, and with the argument \<open>four\<close> the \<open>ValueError\<close> of \<open>int\<close> itself ends the run.
\<close>

theorem zero_chain_length_is_accepted:
  "main [''state-chain-words.py'', ''0''] (\<lambda>file_name. Some []) empty_heap
     = Inr ([''No words found.''], []) \<and>
   main [''state-chain-words.py'', ''four''] (\<lambda>file_name. Some []) empty_heap
     = Inl ValueError"
proof
  show "main [''state-chain-words.py'', ''0''] (\<lambda>file_name. Some []) empty_heap
     = Inr ([''No words found.''], [])"
    using main_not_positive[of "[''state-chain-words.py'', ''0'']" 0 "\<lambda>file_name. Some []"
        empty_heap]
    by (simp add: py_int_examples)
next
  show "main [''state-chain-words.py'', ''four''] (\<lambda>file_name. Some []) empty_heap
     = Inl ValueError"
    using main_parse_error[of "[''state-chain-words.py'', ''four'']" ValueError
        "\<lambda>file_name. Some []" empty_heap]
    by (simp add: py_int_examples)
qed

text \<open>
  Claim C7, amended. A chain-length argument that \<open>int\<close> cannot read ends the run with
  the \<open>ValueError\<close> that \<open>int\<close> raises, whatever the word file and the store: before any
  enumeration work, and as the parse failure itself. A chain length of zero or less is
  not an error: the enumeration runs and returns no chain, and the run ends normally
  with the line \<open>No words found.\<close>, or with the error of a word file that cannot be
  opened.
\<close>

theorem argument_handling:
  "(1 < length argv \<and> py_int (argv ! 1) = Inl e \<longrightarrow>
      e = ValueError \<and> main argv files h = Inl ValueError) \<and>
   (1 < length argv \<and> py_int (argv ! 1) = Inr n \<and> n \<le> 0 \<longrightarrow>
      main argv files h =
        (case files (if 2 < length argv then argv ! 2 else ''/usr/share/dict/words'') of
           None \<Rightarrow> Inl (FileNotFoundError
                     (if 2 < length argv then argv ! 2 else ''/usr/share/dict/words''))
         | Some file_lines \<Rightarrow> Inr ([''No words found.''], [])))"
  using py_int_error[of "argv ! 1" e] main_parse_error[of argv e files h]
    main_not_positive[of argv n files h]
  by blast

text \<open>The amended claim at the arguments \<open>four\<close> and \<open>-3\<close>.\<close>

theorem argument_handling_witness:
  "py_int ''four'' = Inl ValueError \<and>
   main [''state-chain-words.py'', ''four''] (\<lambda>file_name. None) empty_heap = Inl ValueError \<and>
   py_int ''-3'' = Inr (- 3) \<and>
   main [''state-chain-words.py'', ''-3'', ''words.txt''] (\<lambda>file_name. Some three_lines)
     empty_heap = Inr ([''No words found.''], [])"
proof -
  from argument_handling[of "[''state-chain-words.py'', ''four'']" ValueError
      "\<lambda>file_name. None" empty_heap 0]
  have "main [''state-chain-words.py'', ''four''] (\<lambda>file_name. None) empty_heap
      = Inl ValueError"
    by (simp add: py_int_examples)
  moreover
  from argument_handling[of "[''state-chain-words.py'', ''-3'', ''words.txt'']" ValueError
      "\<lambda>file_name. Some three_lines" empty_heap "- 3"]
  have "main [''state-chain-words.py'', ''-3'', ''words.txt''] (\<lambda>file_name. Some three_lines)
     empty_heap = Inr ([''No words found.''], [])"
    by (simp add: py_int_examples)
  ultimately show ?thesis
    by (simp add: py_int_examples)
qed

end
